theory Spec2Isabelle
  imports Main "HOL-Library.Word"
begin

unbundle bit_operations_syntax

section \<open>The ST7735R driver (drivers/st7735r/st7735r144.py)\<close>

text \<open>
  A shallow embedding of the driver: the viper colour codec \<open>_lcopy\<close>, the colour
  encoder \<open>rgb\<close>, the command framing \<open>_wcmd\<close> and \<open>_wcd\<close>, the initialisation
  sequence \<open>_init\<close> and the refresh \<open>show\<close>. Bytes are 8-bit words; viper's native
  integers are 32-bit words; Python's integers are \<open>int\<close>.
\<close>

type_synonym byte = "8 word"
type_synonym vint = "32 word"

subsection \<open>Colour codec\<close>

text \<open>
  The two expressions of the loop body of \<open>_lcopy\<close>. The pixel \<open>c = source[x]\<close> is a
  native integer in 0..255; viper's \<open>>>\<close> on it is the arithmetic shift.
\<close>

definition blue_green :: "vint \<Rightarrow> vint" where
  "blue_green c = push_bit 6 (c AND 3) OR signed_drop_bit 2 (c AND 0x1c)"

definition red :: "vint \<Rightarrow> vint" where
  "red c = signed_drop_bit 3 (c AND 0xe0)"

text \<open>
  \<open>_lcopy(dest, source, length)\<close>: \<open>for x in range(length)\<close> with the running
  destination index \<open>n\<close>. A \<open>ptr8\<close> store keeps the low 8 bits. Viper pointers are
  not bounds-checked, so an access outside either buffer has no defined behaviour:
  the model answers \<open>None\<close> there.
\<close>

fun lcopy_loop :: "nat list \<Rightarrow> nat \<Rightarrow> byte list \<Rightarrow> byte list \<Rightarrow> byte list option" where
  "lcopy_loop [] n dest source = Some dest"
| "lcopy_loop (x # xs) n dest source =
     (if x < length source \<and> n + 1 < length dest then
        let c = (ucast (source ! x) :: vint);
            dest1 = dest[n := ucast (blue_green c)];
            n1 = n + 1;
            dest2 = dest1[n1 := ucast (red c)];
            n2 = n1 + 1
        in lcopy_loop xs n2 dest2 source
      else None)"

definition lcopy :: "byte list \<Rightarrow> byte list \<Rightarrow> int \<Rightarrow> byte list option" where
  "lcopy dest source len = lcopy_loop [0 ..< nat len] 0 dest source"

text \<open>\<open>ST7735R.rgb\<close>, on Python integers.\<close>

definition rgb :: "int \<Rightarrow> int \<Rightarrow> int \<Rightarrow> int" where
  "rgb r g b = (r AND 0xe0) OR (drop_bit 3 g AND 0x1c) OR drop_bit 6 b"

subsection \<open>Device object, pins and bus\<close>

datatype error = TransportError | OverflowError | ValueError | MemoryFault

datatype pin = RST | DC | CS

text \<open>
  What the collaborators see: a pin driven to a level (\<open>False\<close> is 0, \<open>True\<close> is 1;
  reset and chip-select are active low), a write on the SPI bus, a delay.
\<close>

datatype event = PinSet pin bool | SpiWrite "byte list" | SleepMs nat

text \<open>
  The fields of the object that the refresh path uses. \<open>_mvb\<close> is a memoryview of
  \<open>buffer\<close> and shares its bytes, so it is the field \<open>buffer\<close> itself; \<open>_linebuf\<close> is a
  bytearray of its own. The SPI object and the three pins are opaque in the source; they
  are modelled by a recording double: \<open>bus_log\<close> holds every pin assertion, bus write and
  delay in the order issued, and \<open>faults\<close> schedules the transport's failures, one entry
  per future call of \<open>write\<close> (\<open>True\<close>: that call raises); a call takes the first
  entry off the schedule, and calls beyond the schedule succeed. A write that raises is
  in the log: it was attempted.
\<close>

record ST7735R =
  height :: int
  width :: int
  buffer :: "byte list"
  linebuf :: "byte list"
  bus_log :: "event list"
  faults :: "bool list"

text \<open>
  A statement either returns with the new state or raises; the state reached when the
  exception leaves is kept, since the bus has seen what was done before.
\<close>

datatype 's outcome = Returned 's | Raised error 's

fun state_of :: "'s outcome \<Rightarrow> 's" where
  "state_of (Returned s) = s"
| "state_of (Raised e s) = s"

text \<open>A block of statements: run in order, the first exception ends the block.\<close>

fun run :: "('s \<Rightarrow> 's outcome) list \<Rightarrow> 's \<Rightarrow> 's outcome" where
  "run [] s = Returned s"
| "run (f # fs) s = (case f s of Returned s' \<Rightarrow> run fs s' | Raised e s' \<Rightarrow> Raised e s')"

definition pin_call :: "pin \<Rightarrow> bool \<Rightarrow> ST7735R \<Rightarrow> ST7735R outcome" where
  "pin_call p v self = Returned (self\<lparr>bus_log := bus_log self @ [PinSet p v]\<rparr>)"

definition sleep_ms :: "nat \<Rightarrow> ST7735R \<Rightarrow> ST7735R outcome" where
  "sleep_ms t self = Returned (self\<lparr>bus_log := bus_log self @ [SleepMs t]\<rparr>)"

definition spi_write :: "byte list \<Rightarrow> ST7735R \<Rightarrow> ST7735R outcome" where
  "spi_write buf self =
     (let after = self\<lparr>bus_log := bus_log self @ [SpiWrite buf],
                          faults := drop 1 (faults self)\<rparr>
      in if take 1 (faults self) = [True] then Raised TransportError after
         else Returned after)"

text \<open>\<open>_hwreset\<close>, \<open>_wcmd\<close> and \<open>_wcd\<close>, statement by statement.\<close>

definition hwreset :: "ST7735R \<Rightarrow> ST7735R outcome" where
  "hwreset = run
     [pin_call DC False,
      pin_call RST True,
      sleep_ms 1,
      pin_call RST False,
      sleep_ms 1,
      pin_call RST True,
      sleep_ms 1]"

definition wcmd :: "byte list \<Rightarrow> ST7735R \<Rightarrow> ST7735R outcome" where
  "wcmd buf = run
     [pin_call DC False,
      pin_call CS False,
      spi_write buf,
      pin_call CS True]"

definition wcd :: "byte list \<Rightarrow> byte list \<Rightarrow> ST7735R \<Rightarrow> ST7735R outcome" where
  "wcd c d = run
     [pin_call DC False,
      pin_call CS False,
      spi_write c,
      pin_call CS True,
      pin_call DC True,
      pin_call CS False,
      spi_write d,
      pin_call CS True]"

text \<open>\<open>_init\<close>: the reset and the register table, in the order of the source.\<close>

definition init :: "ST7735R \<Rightarrow> ST7735R outcome" where
  "init = run
     [hwreset,
      wcmd [0x01],
      sleep_ms 150,
      wcmd [0x11],
      sleep_ms 256,
      wcd [0xb1] [0x01, 0x2C, 0x2D],
      wcd [0xb2] [0x01, 0x2C, 0x2D],
      wcd [0xb3] [0x01, 0x2C, 0x2D, 0x01, 0x2C, 0x2D],
      wcd [0xb4] [0x07],
      wcd [0xc0] [0xa2, 0x02, 0x84],
      wcd [0xc1] [0xc5],
      wcd [0xc2] [0x0a, 0x00],
      wcd [0xc3] [0x8a, 0x2a],
      wcd [0xc4] [0x8a, 0xee],
      wcd [0xc5] [0x0e],
      wcmd [0x20],
      wcd [0x36] [0xe0],
      wcd [0x3a] [0x05],
      wcd [0xe0] [0x02, 0x1c, 0x07, 0x12, 0x37, 0x32, 0x29, 0x2d,
                  0x29, 0x25, 0x2B, 0x39, 0x00, 0x01, 0x03, 0x10],
      wcd [0xe1] [0x03, 0x1d, 0x07, 0x06, 0x2E, 0x2C, 0x29, 0x2D,
                  0x2E, 0x2E, 0x37, 0x3F, 0x00, 0x00, 0x02, 0x10],
      wcmd [0x13],
      sleep_ms 10,
      wcmd [0x29],
      sleep_ms 100]"

subsection \<open>Refresh\<close>

text \<open>
  \<open>int.to_bytes(v, n, 'big')\<close> for an unsigned value: the \<open>n\<close> bytes of \<open>v\<close>, most
  significant first; a value that does not fit in \<open>n\<close> bytes, or a negative one, raises
  OverflowError. (Firmware that keeps the low-order bytes of such a value instead differs
  from this only where the value does not fit.)
\<close>

definition to_bytes :: "int \<Rightarrow> nat \<Rightarrow> error + byte list" where
  "to_bytes v n =
     (if v < 0 \<or> 2 ^ (8 * n) \<le> v then Inl OverflowError
      else Inr (map (\<lambda>i. word_of_int (drop_bit (8 * i) v)) (rev [0 ..< n])))"

text \<open>The slice \<open>buf[start :]\<close>; a negative start counts from the end.\<close>

definition slice_from :: "int \<Rightarrow> 'a list \<Rightarrow> 'a list" where
  "slice_from start xs =
     (if start < 0 then drop (length xs - nat (- start)) xs else drop (nat start) xs)"

text \<open>
  The body of the \<open>while\<close> loop of \<open>show\<close> up to the write of the line; the arguments
  of each call are evaluated before the call.
\<close>

definition show_line :: "int \<Rightarrow> int \<Rightarrow> int \<Rightarrow> ST7735R \<Rightarrow> ST7735R outcome" where
  "show_line wd row start = run
     [\<lambda>self. case lcopy (linebuf self) (slice_from start (buffer self)) wd of
                None \<Rightarrow> Raised MemoryFault self
              | Some lb \<Rightarrow> Returned (self\<lparr>linebuf := lb\<rparr>),
      \<lambda>self. case to_bytes (push_bit 16 3 + 160) 4 of
                Inl e \<Rightarrow> Raised e self
              | Inr d \<Rightarrow> wcd [0x2a] d self,
      \<lambda>self. case to_bytes (push_bit 16 (row + 2) + row + 3) 4 of
                Inl e \<Rightarrow> Raised e self
              | Inr d \<Rightarrow> wcd [0x2b] d self,
      \<lambda>self. wcd [0x2c] (linebuf self) self]"

function show_loop :: "int \<Rightarrow> int \<Rightarrow> int \<Rightarrow> ST7735R \<Rightarrow> ST7735R outcome" where
  "show_loop wd row start self =
     (if row \<ge> 0 then
        (case show_line wd row start self of
           Returned self' \<Rightarrow> show_loop wd (row - 1) (start + wd) self'
         | Raised e self' \<Rightarrow> Raised e self')
      else Returned self)"
  by pat_completeness auto
termination
  by (relation "measure (\<lambda>(wd, row, start, self). nat (row + 1))") auto

declare show_loop.simps [simp del]

definition "show" :: "ST7735R \<Rightarrow> ST7735R outcome" where
  "show self = show_loop (width self) (height self - 1) 0 self"

text \<open>
  The constructor: \<open>bytearray(n)\<close> is \<open>n\<close> zero bytes and raises ValueError for a
  negative \<open>n\<close>; then \<open>_init\<close> and the first \<open>show\<close>. The arguments \<open>spi\<close>, \<open>cs\<close>,
  \<open>dc\<close> and \<open>rst\<close> are the recording double, given by its fault schedule. The call of
  the FrameBuffer constructor hands the buffer to the drawing layer and is not part of
  the model.
\<close>

definition bytearray :: "int \<Rightarrow> error + byte list" where
  "bytearray n = (if n < 0 then Inl ValueError else Inr (replicate (nat n) 0))"

definition construct :: "bool list \<Rightarrow> int \<Rightarrow> int \<Rightarrow> error + ST7735R" where
  "construct fs ht wd =
     (case bytearray (ht * wd) of
        Inl e \<Rightarrow> Inl e
      | Inr buf \<Rightarrow>
          (case bytearray (wd * 2) of
             Inl e \<Rightarrow> Inl e
           | Inr lb \<Rightarrow>
               (case run [init, show]
                       \<lparr>height = ht, width = wd, buffer = buf, linebuf = lb,
                        bus_log = [], faults = fs\<rparr> of
                  Returned self \<Rightarrow> Inr self
                | Raised e self \<Rightarrow> Inl e)))"

text \<open>
  What the constructor establishes for a height that is not negative, and no method
  changes: the buffer holds \<open>height\<close> rows of \<open>width\<close> pixels and the line buffer
  two bytes per pixel of a row.
\<close>

definition well_formed :: "ST7735R \<Rightarrow> bool" where
  "well_formed self \<longleftrightarrow>
     0 \<le> height self \<and> 0 \<le> width self \<and>
     length (buffer self) = nat (height self * width self) \<and>
     length (linebuf self) = nat (width self * 2)"

subsection \<open>Reading the recorded bus traffic\<close>

text \<open>The events a call added to the log.\<close>

definition emitted :: "ST7735R \<Rightarrow> ST7735R \<Rightarrow> event list" where
  "emitted before after = drop (length (bus_log before)) (bus_log after)"

text \<open>
  The bus writes of a log, each with the level of data/command select under which it was
  made (\<open>False\<close>: a command, \<open>True\<close>: data); the first argument is the level before the
  log starts.
\<close>

fun transfers :: "bool \<Rightarrow> event list \<Rightarrow> (bool \<times> byte list) list" where
  "transfers dc [] = []"
| "transfers dc (PinSet DC v # es) = transfers v es"
| "transfers dc (SpiWrite b # es) = (dc, b) # transfers dc es"
| "transfers dc (e # es) = transfers dc es"

text \<open>How often the one-byte command \<open>c\<close> was written.\<close>

definition issued :: "byte \<Rightarrow> (bool \<times> byte list) list \<Rightarrow> nat" where
  "issued c ts = length (filter (\<lambda>t. t = (False, [c])) ts)"

text \<open>The data payloads that directly follow a write of the command \<open>c\<close>, in order.\<close>

fun payloads :: "byte \<Rightarrow> (bool \<times> byte list) list \<Rightarrow> byte list list" where
  "payloads c (t # u # ts) =
     (if t = (False, [c]) \<and> fst u then snd u # payloads c ts else payloads c (u # ts))"
| "payloads c ts = []"

text \<open>
  Chip-select framing. Reading a log from a deselected bus: chip-select is idle, or
  asserted with no write yet, or asserted with one write done. A log is framed when every
  write falls into an assertion of chip-select that holds no other write, chip-select is
  asserted only from idle, and data/command select never changes while chip-select is
  asserted.
\<close>

datatype select = Idle | Selected | Written

fun frame_step :: "select \<Rightarrow> event \<Rightarrow> select option" where
  "frame_step st (PinSet CS v) =
     (if v then Some Idle else if st = Idle then Some Selected else None)"
| "frame_step st (PinSet DC v) = (if st = Idle then Some st else None)"
| "frame_step st (SpiWrite b) = (if st = Selected then Some Written else None)"
| "frame_step st e = Some st"

fun frame_run :: "select \<Rightarrow> event list \<Rightarrow> select option" where
  "frame_run st [] = Some st"
| "frame_run st (e # es) =
     (case frame_step st e of None \<Rightarrow> None | Some st' \<Rightarrow> frame_run st' es)"

definition framed :: "event list \<Rightarrow> bool" where
  "framed es \<longleftrightarrow> frame_run Idle es \<noteq> None"

text \<open>
  Two properties of a statement, for every state it starts in: it leaves the dimensions,
  the pixel buffer and the length of the line buffer as they are; and what it adds to
  the log is framed, with chip-select idle again when it returns.
\<close>

definition same_frame :: "ST7735R \<Rightarrow> ST7735R \<Rightarrow> bool" where
  "same_frame s s' \<longleftrightarrow>
     height s' = height s \<and> width s' = width s \<and> buffer s' = buffer s \<and>
     length (linebuf s') = length (linebuf s)"

definition keeps :: "(ST7735R \<Rightarrow> ST7735R outcome) \<Rightarrow> bool" where
  "keeps f \<longleftrightarrow> (\<forall>s. same_frame s (state_of (f s)))"

definition frames_from :: "ST7735R \<Rightarrow> ST7735R outcome \<Rightarrow> bool" where
  "frames_from s r \<longleftrightarrow>
     (\<exists>es. bus_log (state_of r) = bus_log s @ es \<and> frame_run Idle es \<noteq> None \<and>
           (\<forall>s'. r = Returned s' \<longrightarrow> frame_run Idle es = Some Idle))"

definition frames :: "(ST7735R \<Rightarrow> ST7735R outcome) \<Rightarrow> bool" where
  "frames f \<longleftrightarrow> (\<forall>s. frames_from s (f s))"

text \<open>
  The inverse wire mapping of the specification's round-trip property. The driver has no
  decoder; these definitions follow the specification's layout of the two wire bytes: the
  first carries blue in bits 7..6 and green in bits 2..0, the second carries red in bits
  4..2.
\<close>

definition wire_red :: "byte \<Rightarrow> byte \<Rightarrow> byte" where
  "wire_red b1 b2 = drop_bit 2 b2 AND 7"

definition wire_green :: "byte \<Rightarrow> byte \<Rightarrow> byte" where
  "wire_green b1 b2 = b1 AND 7"

definition wire_blue :: "byte \<Rightarrow> byte \<Rightarrow> byte" where
  "wire_blue b1 b2 = drop_bit 6 b1"

definition wire_decode :: "byte \<Rightarrow> byte \<Rightarrow> byte" where
  "wire_decode b1 b2 =
     push_bit 5 (wire_red b1 b2) OR push_bit 2 (wire_green b1 b2) OR wire_blue b1 b2"

text \<open>The pixels of a wire-format line, decoded pair by pair.\<close>

fun decode_line :: "byte list \<Rightarrow> byte list" where
  "decode_line (b1 # b2 # bs) = wire_decode b1 b2 # decode_line bs"
| "decode_line bs = []"

subsection \<open>What a refresh is expected to put on the bus\<close>

text \<open>The two bytes \<open>_lcopy\<close> stores for one pixel, and the bytes for a line.\<close>

definition encode_pixel :: "byte \<Rightarrow> byte list" where
  "encode_pixel c = [ucast (blue_green (ucast c)), ucast (red (ucast c))]"

definition encode_line :: "byte list \<Rightarrow> byte list" where
  "encode_line cs = concat (map encode_pixel cs)"

text \<open>Row \<open>i\<close> of a row-major buffer of lines of \<open>w\<close> pixels.\<close>

definition memory_row :: "nat \<Rightarrow> nat \<Rightarrow> 'a list \<Rightarrow> 'a list" where
  "memory_row w i buf = take w (drop (i * w) buf)"

text \<open>The events of one \<open>_wcd\<close> and of one \<open>_wcmd\<close> whose writes succeed.\<close>

definition wcd_events :: "byte list \<Rightarrow> byte list \<Rightarrow> event list" where
  "wcd_events c d =
     [PinSet DC False, PinSet CS False, SpiWrite c, PinSet CS True,
      PinSet DC True, PinSet CS False, SpiWrite d, PinSet CS True]"

definition wcmd_events :: "byte list \<Rightarrow> event list" where
  "wcmd_events c = [PinSet DC False, PinSet CS False, SpiWrite c, PinSet CS True]"

text \<open>Two 16-bit big-endian fields: the start and the end of an address range.\<close>

definition range_payload :: "int \<Rightarrow> int \<Rightarrow> byte list" where
  "range_payload lo hi =
     [word_of_int (lo div 256), word_of_int lo,
      word_of_int (hi div 256), word_of_int hi]"

definition scanline_events :: "int \<Rightarrow> byte list \<Rightarrow> event list" where
  "scanline_events row line =
     wcd_events [0x2a] (range_payload 3 160) @
     wcd_events [0x2b] (range_payload (row + 2) (row + 3)) @
     wcd_events [0x2c] line"

definition scanline_transfers :: "int \<Rightarrow> byte list \<Rightarrow> (bool \<times> byte list) list" where
  "scanline_transfers row line =
     [(False, [0x2a]), (True, range_payload 3 160),
      (False, [0x2b]), (True, range_payload (row + 2) (row + 3)),
      (False, [0x2c]), (True, line)]"

text \<open>
  The \<open>i\<close>-th scanline a refresh issues: panel row \<open>height - 1 - i\<close>, with the pixels
  of row \<open>i\<close> of the buffer.
\<close>

definition frame_line :: "ST7735R \<Rightarrow> nat \<Rightarrow> event list" where
  "frame_line self i =
     scanline_events (height self - 1 - int i)
       (encode_line (memory_row (nat (width self)) i (buffer self)))"

definition frame_events :: "ST7735R \<Rightarrow> nat \<Rightarrow> nat \<Rightarrow> event list" where
  "frame_events self i j = concat (map (frame_line self) [i ..< j])"

definition line_transfers :: "ST7735R \<Rightarrow> nat \<Rightarrow> (bool \<times> byte list) list" where
  "line_transfers self i =
     scanline_transfers (height self - 1 - int i)
       (encode_line (memory_row (nat (width self)) i (buffer self)))"

definition frame_transfers :: "ST7735R \<Rightarrow> nat \<Rightarrow> (bool \<times> byte list) list" where
  "frame_transfers self n = concat (map (line_transfers self) [0 ..< n])"

text \<open>A transport that never fails.\<close>

definition reliable :: "ST7735R \<Rightarrow> bool" where
  "reliable self \<longleftrightarrow> True \<notin> set (faults self)"

text \<open>Heights whose row addresses fit the 16-bit fields of the row-address payload.\<close>

definition addressable :: "ST7735R \<Rightarrow> bool" where
  "addressable self \<longleftrightarrow> height self \<le> 65533"

subsection \<open>Test devices\<close>

text \<open>
  A 2 by 2 device whose top-left pixel is \<open>rgb(255, 0, 0)\<close>, a 1 by 2 device with one
  red pixel in its first row with the log of its refresh, and a 4-row device on a
  transport whose 18th write fails.
\<close>

definition panel_2x2 :: ST7735R where
  "panel_2x2 = \<lparr>height = 2, width = 2,
      buffer = [word_of_int (rgb 255 0 0), 0, 0, 0], linebuf = [0, 0, 0, 0],
      bus_log = [], faults = []\<rparr>"

definition panel_1x2 :: ST7735R where
  "panel_1x2 = \<lparr>height = 2, width = 1,
      buffer = [0xE0, 0x00], linebuf = [0, 0],
      bus_log = [], faults = []\<rparr>"

definition refresh_log :: "event list" where
  "refresh_log = emitted panel_1x2 (state_of (show panel_1x2))"

definition panel_faulty :: ST7735R where
  "panel_faulty = \<lparr>height = 4, width = 1,
      buffer = [0xE0, 0x1C, 0x03, 0xFF], linebuf = [0, 0],
      bus_log = [], faults = replicate 17 False @ [True]\<rparr>"

section \<open>Properties of the colour codec\<close>

subsection \<open>The loop of the codec\<close>

lemma take_two_updates:
  "Suc n < length xs \<Longrightarrow> take (Suc (Suc n)) (xs[n := a, Suc n := b]) = take n xs @ [a, b]"
  by (simp add: take_Suc_conv_app_nth)

lemma lcopy_loop_upt:
  "k + m \<le> length source \<Longrightarrow> 2 * (k + m) \<le> length dest \<Longrightarrow>
   lcopy_loop [k ..< k + m] (2 * k) dest source =
     Some (take (2 * k) dest @ encode_line (take m (drop k source)) @ drop (2 * (k + m)) dest)"
proof (induction m arbitrary: k dest)
  case 0
  then show ?case by (simp add: encode_line_def)
next
  case (Suc m)
  let ?a = "ucast (blue_green (ucast (source ! k))) :: byte"
  let ?b = "ucast (red (ucast (source ! k))) :: byte"
  let ?d = "dest[2 * k := ?a, Suc (2 * k) := ?b]"
  have upt: "[k ..< k + Suc m] = k # [Suc k ..< Suc k + m]"
    by (simp add: upt_conv_Cons)
  have k: "k < length source" and n: "Suc (2 * k) < length dest"
    using Suc.prems by simp_all
  have ih: "lcopy_loop [Suc k ..< Suc k + m] (2 * Suc k) ?d source =
     Some (take (2 * Suc k) ?d @ encode_line (take m (drop (Suc k) source)) @
           drop (2 * (Suc k + m)) ?d)"
    using Suc.prems by (intro Suc.IH) simp_all
  have t: "take (2 * Suc k) ?d = take (2 * k) dest @ [?a, ?b]"
    using n by (simp add: take_two_updates)
  have d: "drop (2 * (Suc k + m)) ?d = drop (2 * (k + Suc m)) dest"
    by simp
  have e: "encode_line (take (Suc m) (drop k source)) =
      [?a, ?b] @ encode_line (take m (drop (Suc k) source))"
    using k by (simp add: encode_line_def encode_pixel_def take_Suc_conv_app_nth
        Cons_nth_drop_Suc [symmetric])
  have step: "lcopy_loop (k # [Suc k ..< Suc k + m]) (2 * k) dest source =
      lcopy_loop [Suc k ..< Suc k + m] (2 * Suc k) ?d source"
    using k n by (simp add: Let_def)
  show ?case
    unfolding upt step ih t d e by simp
qed

lemma lcopy_eq:
  assumes "n \<le> length source" "2 * n \<le> length dest"
  shows "lcopy dest source (int n) = Some (encode_line (take n source) @ drop (2 * n) dest)"
  using lcopy_loop_upt [of 0 n source dest] assms by (simp add: lcopy_def)

subsection \<open>Bytes, bit by bit\<close>

lemma byte_eqI:
  assumes "bit a 0 = bit b 0" "bit a 1 = bit b 1" "bit a 2 = bit b 2" "bit a 3 = bit b 3"
    "bit a 4 = bit b 4" "bit a 5 = bit b 5" "bit a 6 = bit b 6" "bit a 7 = bit b 7"
  shows "a = (b::byte)"
proof (rule bit_word_eqI)
  fix n assume "n < LENGTH(8)"
  then have "n \<in> {0, 1, 2, 3, 4, 5, 6, 7}" by auto
  then show "bit a n = bit b n" using assms by (elim insertE emptyE) simp_all
qed

lemma mask_0x03: "(0x03 :: 'a::len word) = mask 2" by (simp add: mask_eq_exp_minus_1)
lemma mask_0x07: "(0x07 :: 'a::len word) = mask 3" by (simp add: mask_eq_exp_minus_1)
lemma mask_0x1c: "(0x1c :: 'a::len word) = push_bit 2 (mask 3)" by (simp add: mask_eq_exp_minus_1)
lemma mask_0xe0: "(0xe0 :: 'a::len word) = push_bit 5 (mask 3)" by (simp add: mask_eq_exp_minus_1)
lemma mask_0x38: "(0x38 :: 'a::len word) = push_bit 3 (mask 3)" by (simp add: mask_eq_exp_minus_1)
lemma mask_0xe3: "(0xe3 :: 'a::len word) = push_bit 5 (mask 3) OR mask 2" by (simp add: mask_eq_exp_minus_1)

lemma byte_bit_high [simp]: "8 \<le> n \<Longrightarrow> bit (c::byte) n = False"
  by (auto dest: bit_imp_le_length)

lemmas masks = mask_0x03 mask_0x07 mask_0x1c mask_0xe0 mask_0x38 mask_0xe3

lemma blue_green_byte:
  "(ucast (blue_green (ucast (c::byte))) :: byte) = push_bit 6 (c AND 3) OR drop_bit 2 (c AND 0x1c)"
  unfolding blue_green_def masks
  by (rule byte_eqI; simp add: bit_simps)

lemma red_byte:
  "(ucast (red (ucast (c::byte))) :: byte) = drop_bit 3 (c AND 0xe0)"
  unfolding red_def masks
  by (rule byte_eqI; simp add: bit_simps)

lemma encode_pixel_eq:
  "encode_pixel c = [push_bit 6 (c AND 3) OR drop_bit 2 (c AND 0x1c), drop_bit 3 (c AND 0xe0)]"
  by (simp add: encode_pixel_def blue_green_byte red_byte)

lemma first_byte_layout:
  fixes c :: byte
  defines "b1 \<equiv> push_bit 6 (c AND 3) OR drop_bit 2 (c AND 0x1c)"
  shows "b1 AND 0x38 = 0" "drop_bit 6 b1 = c AND 3" "b1 AND 7 = drop_bit 2 c AND 7"
  unfolding b1_def masks
  by (rule byte_eqI; simp add: bit_simps)+

lemma second_byte_layout:
  fixes c :: byte
  defines "b2 \<equiv> drop_bit 3 (c AND 0xe0)"
  shows "b2 AND 0xe3 = 0" "drop_bit 2 b2 = drop_bit 5 c" "drop_bit 2 b2 AND 7 = drop_bit 5 c"
  unfolding b2_def masks
  by (rule byte_eqI; simp add: bit_simps)+

lemma wire_decode_encode:
  fixes c :: byte
  shows "wire_decode (push_bit 6 (c AND 3) OR drop_bit 2 (c AND 0x1c)) (drop_bit 3 (c AND 0xe0)) = c"
  unfolding wire_decode_def wire_red_def wire_green_def wire_blue_def masks
  by (rule byte_eqI; simp add: bit_simps)

lemma length_encode_line: "length (encode_line cs) = 2 * length cs"
  by (induction cs) (simp_all add: encode_line_def encode_pixel_def)

lemma encode_line_Cons: "encode_line (c # cs) = encode_pixel c @ encode_line cs"
  by (simp add: encode_line_def)

lemma nth_encode_line:
  "i < length cs \<Longrightarrow>
     encode_line cs ! (2 * i) = encode_pixel (cs ! i) ! 0 \<and>
     encode_line cs ! Suc (2 * i) = encode_pixel (cs ! i) ! 1"
proof (induction cs arbitrary: i)
  case Nil
  then show ?case by simp
next
  case (Cons c cs)
  show ?case
  proof (cases i)
    case 0
    then show ?thesis by (simp add: encode_line_Cons encode_pixel_def)
  next
    case (Suc j)
    with Cons.prems have "j < length cs" by simp
    from Cons.IH [OF this] Suc show ?thesis
      by (simp add: encode_line_Cons encode_pixel_def)
  qed
qed

lemma lcopy_one: "lcopy [x, y] [c] 1 = Some (encode_pixel c)"
  using lcopy_eq [of 1 "[c]" "[x, y]"] by (simp add: encode_line_def)

lemma pixel_fields:
  "\<exists>b1 b2. encode_pixel c = [b1, b2] \<and>
     wire_decode b1 b2 = c \<and>
     wire_red b1 b2 = drop_bit 5 c \<and>
     wire_green b1 b2 = drop_bit 2 c AND 7 \<and>
     wire_blue b1 b2 = c AND 3 \<and>
     b1 AND 0x38 = 0 \<and> b2 AND 0xe3 = 0"
  unfolding encode_pixel_eq wire_red_def wire_green_def wire_blue_def
  using wire_decode_encode [of c] first_byte_layout [of c] second_byte_layout [of c]
  by blast

lemma take_bit_uint_byte: "take_bit 8 (uint (w::byte)) = uint w"
  using uint_lt2p [of w] by (simp add: take_bit_int_eq_self)

lemma rgb_uint:
  fixes R G B :: byte
  shows "rgb (uint R) (uint G) (uint B) = uint ((R AND 0xe0) OR (drop_bit 3 G AND 0x1c) OR drop_bit 6 B)"
  by (simp add: rgb_def uint_or uint_and unsigned_drop_bit_eq take_bit_uint_byte)

lemma rgb_fields:
  fixes R G B :: byte
  defines "W \<equiv> (R AND 0xe0) OR (drop_bit 3 G AND 0x1c) OR drop_bit 6 B"
  shows "drop_bit 5 W = drop_bit 5 R" "drop_bit 2 W AND 7 = drop_bit 5 G" "W AND 3 = drop_bit 6 B"
    "(R AND 0xe0) AND (drop_bit 3 G AND 0x1c) = 0" "(R AND 0xe0) AND drop_bit 6 B = 0"
    "(drop_bit 3 G AND 0x1c) AND drop_bit 6 B = 0"
  unfolding W_def masks
  by (rule byte_eqI; simp add: bit_simps)+

lemma uint_byte: "0 \<le> r \<Longrightarrow> r \<le> 255 \<Longrightarrow> uint (word_of_int r :: byte) = r"
  by (simp add: uint_word_of_int)


subsection \<open>The claims about the codec\<close>

text \<open>
  C1. On a scanline of \<open>n\<close> pixels that both buffers hold, \<open>_lcopy\<close> stores for pixel
  \<open>i\<close> exactly two bytes, at the destination indices \<open>2i\<close> and \<open>2i + 1\<close>: the first is
  \<open>((c & 3) << 6) | ((c & 0x1C) >> 2)\<close>, with the two blue bits in its top two bits, the
  three green bits in its low three bits and bits 5..3 zero; the second is
  \<open>(c & 0xE0) >> 3\<close>, the three red bits in bits 4..2 and every other bit zero. The
  destination keeps its length and its bytes from index \<open>2n\<close> on.
\<close>

theorem lcopy_pixels:
  assumes "n \<le> length source" and "2 * n \<le> length dest"
  shows "\<exists>out. lcopy dest source (int n) = Some out \<and> length out = length dest \<and>
     (\<forall>i<n. out ! (2 * i) = push_bit 6 (source ! i AND 3) OR drop_bit 2 (source ! i AND 0x1c) \<and>
             out ! (2 * i + 1) = drop_bit 3 (source ! i AND 0xe0) \<and>
             drop_bit 6 (out ! (2 * i)) = source ! i AND 3 \<and>
             out ! (2 * i) AND 7 = drop_bit 2 (source ! i) AND 7 \<and>
             out ! (2 * i) AND 0x38 = 0 \<and>
             drop_bit 2 (out ! (2 * i + 1)) = drop_bit 5 (source ! i) \<and>
             out ! (2 * i + 1) AND 0xe3 = 0) \<and>
     (\<forall>j<length dest. 2 * n \<le> j \<longrightarrow> out ! j = dest ! j)"
proof -
  let ?out = "encode_line (take n source) @ drop (2 * n) dest"
  have eq: "lcopy dest source (int n) = Some ?out"
    using assms by (rule lcopy_eq)
  have len: "length ?out = length dest"
    using assms by (simp add: length_encode_line)
  have px: "?out ! (2 * i) = push_bit 6 (source ! i AND 3) OR drop_bit 2 (source ! i AND 0x1c) \<and>
             ?out ! (2 * i + 1) = drop_bit 3 (source ! i AND 0xe0) \<and>
             drop_bit 6 (?out ! (2 * i)) = source ! i AND 3 \<and>
             ?out ! (2 * i) AND 7 = drop_bit 2 (source ! i) AND 7 \<and>
             ?out ! (2 * i) AND 0x38 = 0 \<and>
             drop_bit 2 (?out ! (2 * i + 1)) = drop_bit 5 (source ! i) \<and>
             ?out ! (2 * i + 1) AND 0xe3 = 0" if "i < n" for i
  proof -
    have "i < length (take n source)" using that assms by simp
    from nth_encode_line [OF this] that assms
    have a: "?out ! (2 * i) = push_bit 6 (source ! i AND 3) OR drop_bit 2 (source ! i AND 0x1c)"
      and b: "?out ! (2 * i + 1) = drop_bit 3 (source ! i AND 0xe0)"
      by (simp_all add: nth_append length_encode_line encode_pixel_eq)
    show ?thesis
      unfolding a b
      using first_byte_layout [of "source ! i"] second_byte_layout [of "source ! i"]
      by blast
  qed
  have rest: "?out ! j = dest ! j" if "j < length dest" "2 * n \<le> j" for j
    using that assms by (simp add: nth_append length_encode_line)
  show ?thesis
    using eq len px rest by blast
qed

theorem lcopy_pixels_witness:
  "2 \<le> length [0xE7, 0x1C, 0x55 :: byte] \<and> 2 * 2 \<le> length [9, 9, 9, 9, 9 :: byte] \<and>
   lcopy [9, 9, 9, 9, 9] [0xE7, 0x1C, 0x55] (int 2) = Some [0xC1, 0x1C, 0x07, 0x00, 9] \<and>
   (\<exists>out. lcopy [9, 9, 9, 9, 9] [0xE7, 0x1C, 0x55] (int 2) = Some out \<and>
      length out = length [9, 9, 9, 9, 9 :: byte] \<and>
      (\<forall>i<2. out ! (2 * i) = push_bit 6 ([0xE7, 0x1C, 0x55] ! i AND 3) OR
                                drop_bit 2 ([0xE7, 0x1C, 0x55] ! i AND 0x1c) \<and>
              out ! (2 * i + 1) = drop_bit 3 ([0xE7, 0x1C, 0x55] ! i AND 0xe0)))"
proof -
  have h1: "2 \<le> length [0xE7, 0x1C, 0x55 :: byte]" by simp
  have h2: "2 * 2 \<le> length [9, 9, 9, 9, 9 :: byte]" by simp
  have v: "lcopy [9, 9, 9, 9, 9] [0xE7, 0x1C, 0x55] (int 2) = Some [0xC1, 0x1C, 0x07, 0x00, 9]"
    by (simp add: lcopy_def upt_rec blue_green_def red_def)
  from lcopy_pixels [OF h1 h2] have "\<exists>out. lcopy [9, 9, 9, 9, 9] [0xE7, 0x1C, 0x55] (int 2) = Some out \<and>
      length out = length [9, 9, 9, 9, 9 :: byte] \<and>
      (\<forall>i<2. out ! (2 * i) = push_bit 6 ([0xE7, 0x1C, 0x55] ! i AND 3) OR
                                drop_bit 2 ([0xE7, 0x1C, 0x55] ! i AND 0x1c) \<and>
              out ! (2 * i + 1) = drop_bit 3 ([0xE7, 0x1C, 0x55] ! i AND 0xe0))"
    by blast
  with h1 h2 v show ?thesis by blast
qed

text \<open>
  C2. The two wire bytes of a pixel \<open>c\<close> encode it without loss: the inverse wire mapping
  gives back \<open>c\<close>, and with it the three red bits, the three green bits and the two blue
  bits; the wire bits outside the sub-fields (bits 5..3 of the first byte, bits 7..5 and
  1..0 of the second) are zero for every \<open>c\<close>.
\<close>

theorem codec_roundtrip:
  "\<exists>b1 b2. lcopy [x, y] [c] 1 = Some [b1, b2] \<and>
     wire_decode b1 b2 = c \<and>
     wire_red b1 b2 = drop_bit 5 c \<and>
     wire_green b1 b2 = drop_bit 2 c AND 7 \<and>
     wire_blue b1 b2 = c AND 3 \<and>
     b1 AND 0x38 = 0 \<and> b2 AND 0xe3 = 0"
  using pixel_fields [of c] by (simp add: lcopy_one)

text \<open>
  C10. For \<open>r\<close>, \<open>g\<close>, \<open>b\<close> in 0..255, \<open>rgb(r, g, b)\<close> is an 8-bit value made of
  three pairwise disjoint sub-fields, and decoding the wire bytes that the codec emits
  for it gives the top three bits of \<open>r\<close>, the top three bits of \<open>g\<close> and the top two
  bits of \<open>b\<close>.
\<close>

theorem rgb_codec:
  assumes "r \<in> {0..255}" and "g \<in> {0..255}" and "b \<in> {0..255}"
  shows "rgb r g b \<in> {0..255} \<and>
     (r AND 0xe0) AND (drop_bit 3 g AND 0x1c) = 0 \<and>
     (r AND 0xe0) AND drop_bit 6 b = 0 \<and>
     (drop_bit 3 g AND 0x1c) AND drop_bit 6 b = 0 \<and>
     (\<exists>b1 b2. lcopy [x, y] [word_of_int (rgb r g b)] 1 = Some [b1, b2] \<and>
        uint (wire_red b1 b2) = drop_bit 5 r \<and>
        uint (wire_green b1 b2) = drop_bit 5 g \<and>
        uint (wire_blue b1 b2) = drop_bit 6 b)"
proof -
  define R G B :: byte where "R = word_of_int r" and "G = word_of_int g" and "B = word_of_int b"
  define W where "W = (R AND 0xe0) OR (drop_bit 3 G AND 0x1c) OR drop_bit 6 B"
  have r: "r = uint R" and g: "g = uint G" and b: "b = uint B"
    using assms by (simp_all add: R_def G_def B_def uint_byte)
  have w: "rgb r g b = uint W"
    unfolding r g b W_def by (rule rgb_uint)
  have range: "rgb r g b \<in> {0..255}"
    using uint_lt2p [of W] by (simp add: w)
  have d1: "(r AND 0xe0) AND (drop_bit 3 g AND 0x1c) = uint ((R AND 0xe0) AND (drop_bit 3 G AND 0x1c))"
    and d2: "(r AND 0xe0) AND drop_bit 6 b = uint ((R AND 0xe0) AND drop_bit 6 B)"
    and d3: "(drop_bit 3 g AND 0x1c) AND drop_bit 6 b = uint ((drop_bit 3 G AND 0x1c) AND drop_bit 6 B)"
    unfolding r g b by (simp_all add: uint_and unsigned_drop_bit_eq take_bit_uint_byte)
  have disjoint: "(r AND 0xe0) AND (drop_bit 3 g AND 0x1c) = 0"
    "(r AND 0xe0) AND drop_bit 6 b = 0" "(drop_bit 3 g AND 0x1c) AND drop_bit 6 b = 0"
    unfolding d1 d2 d3 by (simp_all add: rgb_fields)
  obtain b1 b2 where enc: "lcopy [x, y] [W] 1 = Some [b1, b2]"
    and red: "wire_red b1 b2 = drop_bit 5 W"
    and green: "wire_green b1 b2 = drop_bit 2 W AND 7"
    and blue: "wire_blue b1 b2 = W AND 3"
    using pixel_fields [of W] by (auto simp add: lcopy_one)
  have "uint (wire_red b1 b2) = drop_bit 5 r"
    unfolding red r using rgb_fields(1) [of R G B]
    by (simp add: W_def unsigned_drop_bit_eq take_bit_uint_byte)
  moreover have "uint (wire_green b1 b2) = drop_bit 5 g"
    unfolding green g using rgb_fields(2) [of R G B]
    by (simp add: W_def unsigned_drop_bit_eq take_bit_uint_byte)
  moreover have "uint (wire_blue b1 b2) = drop_bit 6 b"
    unfolding blue b using rgb_fields(3) [of R G B]
    by (simp add: W_def unsigned_drop_bit_eq take_bit_uint_byte)
  moreover have "lcopy [x, y] [word_of_int (rgb r g b)] 1 = Some [b1, b2]"
    using enc by (simp add: w)
  ultimately show ?thesis
    using range disjoint by blast
qed

theorem rgb_codec_witness:
  "(255::int) \<in> {0..255} \<and> (128::int) \<in> {0..255} \<and> (64::int) \<in> {0..255} \<and>
   rgb 255 128 64 = 0xF1 \<and>
   (\<exists>b1 b2. lcopy [0, 0] [word_of_int (rgb 255 128 64)] 1 = Some [b1, b2] \<and>
        uint (wire_red b1 b2) = drop_bit 5 255 \<and>
        uint (wire_green b1 b2) = drop_bit 5 128 \<and>
        uint (wire_blue b1 b2) = drop_bit 6 64)"
proof -
  have h1: "(255::int) \<in> {0..255}" and h2: "(128::int) \<in> {0..255}"
    and h3: "(64::int) \<in> {0..255}" by simp_all
  have v: "rgb 255 128 64 = 0xF1" by (simp add: rgb_def)
  from rgb_codec [OF h1 h2 h3, of 0 0] h1 h2 h3 v show ?thesis by blast
qed

section \<open>Properties of the bus traffic\<close>

subsection \<open>Writes, commands and payload encoding\<close>

lemma no_fault_first: "True \<notin> set (take (Suc n) fs) \<Longrightarrow> take (Suc 0) fs \<noteq> [True]"
  by (cases fs) auto

lemma no_fault_drop: "True \<notin> set (take (m + n) fs) \<Longrightarrow> True \<notin> set (take n (drop m fs))"
  by (metis add.commute in_set_dropD take_drop)

lemma no_fault_take: "True \<notin> set (take (m + n) fs) \<Longrightarrow> True \<notin> set (take m fs)"
  by (metis in_set_takeD take_take min_def le_add1)

lemma spi_write_ok:
  "True \<notin> set (take (Suc n) (faults self)) \<Longrightarrow>
   spi_write buf self =
     Returned (self\<lparr>bus_log := bus_log self @ [SpiWrite buf], faults := drop 1 (faults self)\<rparr>)"
  by (simp add: spi_write_def no_fault_first)

lemma wcd_ok:
  assumes "True \<notin> set (take 2 (faults self))"
  shows "wcd c d self =
     Returned (self\<lparr>bus_log := bus_log self @ wcd_events c d, faults := drop 2 (faults self)\<rparr>)"
proof -
  have a: "take (Suc 0) (faults self) \<noteq> [True]"
    using assms no_fault_first [of 1 "faults self"] by (simp add: numeral_2_eq_2)
  have b: "take (Suc 0) (drop (Suc 0) (faults self)) \<noteq> [True]"
    using assms no_fault_drop [of 1 1 "faults self"] no_fault_first [of 0 "drop 1 (faults self)"]
    by (simp add: numeral_2_eq_2)
  show ?thesis
    by (simp add: wcd_def pin_call_def spi_write_def wcd_events_def a b numeral_2_eq_2)
qed

lemma wcd_data_fails:
  assumes "take 2 (faults self) = [False, True]"
  shows "wcd c d self =
     Raised TransportError
       (self\<lparr>bus_log := bus_log self @ butlast (wcd_events c d), faults := drop 2 (faults self)\<rparr>)"
proof -
  obtain fs where fs: "faults self = False # True # fs"
    using assms by (cases "faults self"; cases "tl (faults self)") auto
  show ?thesis
    by (simp add: wcd_def pin_call_def spi_write_def wcd_events_def fs numeral_2_eq_2)
qed




lemma byte_of_int_add: "(word_of_int (k + 256 * l) :: byte) = word_of_int k"
proof -
  have "(k + 256 * l) mod 2 ^ 8 = k mod 2 ^ 8" by simp
  then show ?thesis
    unfolding word_of_int_eq_iff take_bit_eq_mod by simp
qed

lemma to_bytes_b1: "(word_of_int (drop_bit 8 (push_bit 16 lo + hi)) :: byte) = word_of_int (hi div 256)"
proof -
  have "push_bit 16 lo + hi = hi + 256 * (256 * lo)"
    by (simp add: push_bit_eq_mult)
  then have "drop_bit 8 (push_bit 16 lo + hi) = hi div 256 + 256 * lo"
    by (simp add: drop_bit_eq_div)
  then show ?thesis
    by (simp only: byte_of_int_add)
qed

lemma to_bytes_b0: "(word_of_int (push_bit 16 lo + hi) :: byte) = word_of_int hi"
proof -
  have "push_bit 16 lo + hi = hi + 256 * (256 * lo)"
    by (simp add: push_bit_eq_mult)
  then show ?thesis
    by (simp only: byte_of_int_add)
qed

lemma to_bytes_b2: "0 \<le> hi \<Longrightarrow> hi < 65536 \<Longrightarrow> drop_bit 16 (push_bit 16 lo + hi) = (lo::int)"
  by (simp add: push_bit_eq_mult drop_bit_eq_div)

lemma to_bytes_b3: "0 \<le> hi \<Longrightarrow> hi < 65536 \<Longrightarrow> drop_bit 24 (push_bit 16 lo + hi) = (lo::int) div 256"
proof -
  assume a: "0 \<le> hi" "hi < 65536"
  have "drop_bit 24 (push_bit 16 lo + hi) = drop_bit 8 (drop_bit 16 (push_bit 16 lo + hi))"
    by simp
  also have "\<dots> = drop_bit 8 lo" using a by (simp only: to_bytes_b2)
  finally show ?thesis by (simp add: drop_bit_eq_div)
qed


lemma byte_of_push_bit_16: "(word_of_int (push_bit 16 lo) :: byte) = 0"
  using to_bytes_b0 [of lo 0] by simp

lemma to_bytes_range:
  assumes "0 \<le> lo" "lo < 65536" "0 \<le> hi" "hi < 65536"
  shows "to_bytes (push_bit 16 lo + hi) 4 = Inr (range_payload lo hi)"
proof -
  have upt: "rev [0 ..< 4] = [3, 2, 1, 0::nat]"
    by (simp add: upt_rec)
  have "push_bit 16 lo + hi < 65536 * 65536"
    using assms by (simp add: push_bit_eq_mult)
  moreover have "0 \<le> push_bit 16 lo + hi"
    using assms by (simp add: push_bit_eq_mult)
  ultimately have fits: "\<not> (push_bit 16 lo + hi < 0 \<or> 2 ^ (8 * 4) \<le> push_bit 16 lo + hi)"
    by simp
  show ?thesis
    unfolding to_bytes_def upt range_payload_def
    using fits assms by (simp add: byte_of_push_bit_16 to_bytes_b1 to_bytes_b2 to_bytes_b3)
qed

lemma to_bytes_caset: "to_bytes (push_bit 16 3 + 160) 4 = Inr (range_payload 3 160)"
  by (rule to_bytes_range) simp_all

lemma to_bytes_raset:
  "0 \<le> row \<Longrightarrow> row \<le> 65532 \<Longrightarrow>
   to_bytes (push_bit 16 (row + 2) + row + 3) 4 = Inr (range_payload (row + 2) (row + 3))"
  using to_bytes_range [of "row + 2" "row + 3"] by (simp add: add.assoc)

subsection \<open>One scanline\<close>

lemma no_fault_six:
  assumes "True \<notin> set (take 6 fs)"
  shows "True \<notin> set (take 2 fs)" "True \<notin> set (take 2 (drop 2 fs))"
    "True \<notin> set (take 2 (drop 4 fs))"
  using assms no_fault_take [of 2 4 fs] no_fault_drop [of 2 4 fs] no_fault_drop [of 4 2 fs]
    no_fault_take [of 2 2 "drop 2 fs"]
  by simp_all

lemma to_bytes_caset_value: "to_bytes 196768 4 = Inr (range_payload 3 160)"
  using to_bytes_caset by simp

lemma slice_from_nonneg: "0 \<le> start \<Longrightarrow> slice_from start xs = drop (nat start) xs"
  by (simp add: slice_from_def)

lemma show_line_ok:
  assumes row: "0 \<le> row" "row \<le> 65532"
    and wd: "0 \<le> wd" and start: "0 \<le> start"
    and buf: "nat start + nat wd \<le> length (buffer s)"
    and lb: "length (linebuf s) = 2 * nat wd"
    and ok: "True \<notin> set (take 6 (faults s))"
  defines "line \<equiv> encode_line (take (nat wd) (drop (nat start) (buffer s)))"
  shows "show_line wd row start s =
     Returned (s\<lparr>linebuf := line, bus_log := bus_log s @ scanline_events row line,
                 faults := drop 6 (faults s)\<rparr>)"
proof -
  have "lcopy (linebuf s) (drop (nat start) (buffer s)) (int (nat wd)) =
      Some (encode_line (take (nat wd) (drop (nat start) (buffer s))) @
            drop (2 * nat wd) (linebuf s))"
    using buf lb by (intro lcopy_eq) simp_all
  then have copy: "lcopy (linebuf s) (slice_from start (buffer s)) wd = Some line"
    using wd start lb by (simp add: slice_from_nonneg line_def)
  note f = no_fault_six [OF ok]
  show ?thesis
    unfolding show_line_def
    by (simp add: copy to_bytes_caset_value to_bytes_raset row wcd_ok f scanline_events_def)
qed

subsection \<open>The loop of the refresh\<close>

lemma frame_events_Suc: "i \<le> j \<Longrightarrow> frame_events s i (Suc j) = frame_events s i j @ frame_line s j"
  by (simp add: frame_events_def)

lemma frame_events_empty [simp]: "frame_events s i i = []"
  by (simp add: frame_events_def)

lemma well_formed_dims:
  assumes "well_formed s"
  obtains H W where "height s = int H" "width s = int W"
    "length (buffer s) = H * W" "length (linebuf s) = 2 * W"
proof -
  from assms have h: "0 \<le> height s" and w: "0 \<le> width s"
    and b: "length (buffer s) = nat (height s * width s)"
    and l: "length (linebuf s) = nat (width s * 2)"
    by (simp_all add: well_formed_def)
  show thesis
  proof (rule that [of "nat (height s)" "nat (width s)"])
    show "height s = int (nat (height s))" using h by simp
    show "width s = int (nat (width s))" using w by simp
    show "length (buffer s) = nat (height s) * nat (width s)"
      using b h w by (simp add: nat_mult_distrib)
    show "length (linebuf s) = 2 * nat (width s)"
      using l w by (simp add: nat_mult_distrib mult.commute)
  qed
qed

lemma show_loop_step:
  assumes "0 \<le> row" and "show_line wd row start s = Returned s'"
  shows "show_loop wd row start s = show_loop wd (row - 1) (start + wd) s'"
  using assms by (subst show_loop.simps) simp

lemma show_loop_raise:
  assumes "0 \<le> row" and "show_line wd row start s = Raised e s'"
  shows "show_loop wd row start s = Raised e s'"
  using assms by (subst show_loop.simps) simp

lemma show_loop_done: "row < 0 \<Longrightarrow> show_loop wd row start s = Returned s"
  by (subst show_loop.simps) simp

text \<open>The state after the first \<open>j\<close> scanlines.\<close>

lemma show_line_at:
  assumes H: "height s = int H" and W: "width s = int W"
    and buf: "length (buffer s) = H * W"
    and addr: "height s \<le> 65533" and j: "j < H"
    and lb: "length lb = 2 * W"
    and ok: "True \<notin> set (take 6 fs)"
  shows "show_line (width s) (height s - 1 - int j) (int j * width s)
           (s\<lparr>linebuf := lb, bus_log := log, faults := fs\<rparr>) =
         Returned (s\<lparr>linebuf := encode_line (memory_row W j (buffer s)),
                     bus_log := log @ frame_line s j, faults := drop 6 fs\<rparr>)"
proof -
  let ?s = "s\<lparr>linebuf := lb, bus_log := log, faults := fs\<rparr>"
  have "Suc j * W \<le> H * W"
    using j by (intro mult_le_mono1) simp
  then have fit: "nat (int j * int W) + nat (int W) \<le> length (buffer ?s)"
    by (simp add: buf nat_mult_distrib)
  have "show_line (int W) (int H - 1 - int j) (int j * int W) ?s =
      Returned (?s\<lparr>linebuf := encode_line (take (nat (int W)) (drop (nat (int j * int W)) (buffer ?s))),
         bus_log := bus_log ?s @ scanline_events (int H - 1 - int j)
            (encode_line (take (nat (int W)) (drop (nat (int j * int W)) (buffer ?s)))),
         faults := drop 6 (faults ?s)\<rparr>)"
    using j addr H fit lb ok by (intro show_line_ok) simp_all
  then show ?thesis
    by (simp add: H W frame_line_def memory_row_def nat_mult_distrib)
qed

lemma show_loop_prefix:
  assumes wf: "well_formed s" and addr: "addressable s"
    and j: "j \<le> nat (height s)" and ok: "True \<notin> set (take (6 * j) (faults s))"
  shows "\<exists>lb. length lb = length (linebuf s) \<and>
     show_loop (width s) (height s - 1) 0 s =
     show_loop (width s) (height s - 1 - int j) (int j * width s)
       (s\<lparr>linebuf := lb, bus_log := bus_log s @ frame_events s 0 j,
           faults := drop (6 * j) (faults s)\<rparr>)"
  using j ok
proof (induction j)
  case 0
  have "s\<lparr>linebuf := linebuf s, bus_log := bus_log s @ frame_events s 0 0,
          faults := drop (6 * 0) (faults s)\<rparr> = s"
    by simp
  then show ?case
    by (intro exI [of _ "linebuf s"]) simp
next
  case (Suc j)
  from wf obtain H W where H: "height s = int H" and W: "width s = int W"
    and buf: "length (buffer s) = H * W" and lbs: "length (linebuf s) = 2 * W"
    by (rule well_formed_dims)
  have jH: "j < H" using Suc.prems(1) H by simp
  have "True \<notin> set (take (6 * j) (faults s))"
    using Suc.prems(2) no_fault_take [of "6 * j" 6 "faults s"] by (simp add: add.commute)
  with Suc.IH jH H obtain lb where lb: "length lb = length (linebuf s)"
    and run: "show_loop (width s) (height s - 1) 0 s =
       show_loop (width s) (height s - 1 - int j) (int j * width s)
         (s\<lparr>linebuf := lb, bus_log := bus_log s @ frame_events s 0 j,
             faults := drop (6 * j) (faults s)\<rparr>)"
    by auto
  have six: "True \<notin> set (take 6 (drop (6 * j) (faults s)))"
    using Suc.prems(2) no_fault_drop [of "6 * j" 6 "faults s"] by (simp add: add.commute)
  let ?line = "encode_line (memory_row W j (buffer s))"
  have line: "show_line (width s) (height s - 1 - int j) (int j * width s)
           (s\<lparr>linebuf := lb, bus_log := bus_log s @ frame_events s 0 j,
               faults := drop (6 * j) (faults s)\<rparr>) =
         Returned (s\<lparr>linebuf := ?line,
                     bus_log := (bus_log s @ frame_events s 0 j) @ frame_line s j,
                     faults := drop 6 (drop (6 * j) (faults s))\<rparr>)"
    using H W buf addr jH lb lbs six
    by (intro show_line_at) (simp_all add: addressable_def)
  have row: "0 \<le> height s - 1 - int j" using jH H by simp
  have "Suc j * W \<le> H * W"
    using jH by (intro mult_le_mono1) simp
  then have "W \<le> H * W - j * W"
    by simp
  then have len: "length ?line = length (linebuf s)"
    using buf lbs by (simp add: length_encode_line memory_row_def)
  have "show_loop (width s) (height s - 1) 0 s =
     show_loop (width s) (height s - 1 - int (Suc j)) (int (Suc j) * width s)
       (s\<lparr>linebuf := ?line, bus_log := bus_log s @ frame_events s 0 (Suc j),
           faults := drop (6 * Suc j) (faults s)\<rparr>)"
    unfolding run show_loop_step [OF row line]
    by (simp add: frame_events_Suc algebra_simps)
  with len show ?case by blast
qed

subsection \<open>Reading the log of a refresh\<close>

lemma transfers_wcd:
  "transfers dc (wcd_events c d @ es) = (False, c) # (True, d) # transfers True es"
  by (simp add: wcd_events_def)

lemma transfers_wcd_cut:
  "transfers dc (butlast (wcd_events c d)) = [(False, c), (True, d)]"
  by (simp add: wcd_events_def)

lemma transfers_scanline:
  "transfers dc (scanline_events row line @ es) = scanline_transfers row line @ transfers True es"
  by (simp add: scanline_events_def scanline_transfers_def transfers_wcd)

lemma transfers_scanline_cut:
  "transfers dc (butlast (scanline_events row line)) = scanline_transfers row line"
proof -
  have "butlast (scanline_events row line) =
      wcd_events [0x2a] (range_payload 3 160) @
      wcd_events [0x2b] (range_payload (row + 2) (row + 3)) @ butlast (wcd_events [0x2c] line)"
    by (simp add: scanline_events_def butlast_append wcd_events_def)
  then show ?thesis
    by (simp add: transfers_wcd transfers_wcd_cut scanline_transfers_def)
qed

lemma transfers_frame_lines:
  "transfers dc (concat (map (frame_line s) xs) @ es) =
     concat (map (line_transfers s) xs) @ transfers (if xs = [] then dc else True) es"
  by (induction xs arbitrary: dc)
     (simp_all add: frame_line_def line_transfers_def transfers_scanline)

lemma transfers_frame_events:
  "transfers dc (frame_events s 0 n) = frame_transfers s n"
  using transfers_frame_lines [of dc s "[0 ..< n]" "[]"]
  by (simp add: frame_events_def frame_transfers_def)

lemma payloads_data: "payloads c ((True, d) # ts) = payloads c ts"
  by (cases ts) simp_all

lemma payloads_command:
  "payloads c ((False, b) # (True, d) # ts) = (if b = [c] then d # payloads c ts else payloads c ts)"
  by (simp add: payloads_data)

lemma payloads_scanline:
  "payloads c (scanline_transfers row line @ ts) =
     (if c = 0x2a then [range_payload 3 160] else []) @
     (if c = 0x2b then [range_payload (row + 2) (row + 3)] else []) @
     (if c = 0x2c then [line] else []) @ payloads c ts"
  by (simp add: scanline_transfers_def payloads_command del: payloads.simps)

lemma payloads_lines:
  "payloads c (concat (map (line_transfers s) xs)) =
     concat (map (\<lambda>i.
       (if c = 0x2a then [range_payload 3 160] else []) @
       (if c = 0x2b then [range_payload (height s - 1 - int i + 2) (height s - 1 - int i + 3)] else []) @
       (if c = 0x2c then [encode_line (memory_row (nat (width s)) i (buffer s))] else [])) xs)"
proof (induction xs)
  case Nil
  show ?case by simp
next
  case (Cons x xs)
  show ?case
    unfolding list.map concat.simps line_transfers_def payloads_scanline
    using Cons.IH by (simp add: line_transfers_def)
qed

lemma payloads_caset:
  "payloads 0x2a (frame_transfers s n) = replicate n (range_payload 3 160)"
  unfolding frame_transfers_def payloads_lines
  by (simp add: map_replicate_const)

lemma payloads_raset:
  "payloads 0x2b (frame_transfers s n) =
     map (\<lambda>i. range_payload (height s - 1 - int i + 2) (height s - 1 - int i + 3)) [0 ..< n]"
  unfolding frame_transfers_def payloads_lines
  by simp

lemma payloads_ramwr:
  "payloads 0x2c (frame_transfers s n) =
     map (\<lambda>i. encode_line (memory_row (nat (width s)) i (buffer s))) [0 ..< n]"
  unfolding frame_transfers_def payloads_lines
  by simp

lemma issued_append: "issued c (ts @ us) = issued c ts + issued c us"
  by (simp add: issued_def)

lemma issued_Nil [simp]: "issued c [] = 0"
  by (simp add: issued_def)

lemma issued_scanline:
  "c \<in> {0x2a, 0x2b, 0x2c} \<Longrightarrow> issued c (scanline_transfers row line) = 1"
  by (auto simp add: issued_def scanline_transfers_def)

lemma issued_lines:
  "c \<in> {0x2a, 0x2b, 0x2c} \<Longrightarrow> issued c (concat (map (line_transfers s) xs)) = length xs"
  by (induction xs) (simp_all add: issued_append issued_scanline line_transfers_def)

lemma issued_frame:
  "c \<in> {0x2a, 0x2b, 0x2c} \<Longrightarrow> issued c (frame_transfers s n) = n"
  by (simp add: frame_transfers_def issued_lines)

lemma length_frame_transfers: "length (frame_transfers s n) = 6 * n"
  by (induction n) (simp_all add: frame_transfers_def line_transfers_def scanline_transfers_def)

subsection \<open>A refresh on a reliable transport\<close>

lemma shift_or_add:
  assumes "0 \<le> b" "b < 65536"
  shows "push_bit 16 a OR b = push_bit 16 a + (b::int)"
proof -
  have b: "b = take_bit 16 b"
    using assms by (simp add: take_bit_int_eq_self)
  have "push_bit 16 a AND take_bit 16 b = 0"
    by (rule bit_eqI) (auto simp add: bit_simps)
  then have "push_bit 16 a + take_bit 16 b = push_bit 16 a OR take_bit 16 b"
    by (rule disjunctive_add_eq_or)
  with b show ?thesis by simp
qed

lemma reliable_take: "reliable s \<Longrightarrow> True \<notin> set (take n (faults s))"
  by (auto simp add: reliable_def dest: in_set_takeD)

lemma emitted_append [simp]:
  "emitted s (s\<lparr>linebuf := lb, bus_log := bus_log s @ es, faults := fs\<rparr>) = es"
  by (simp add: emitted_def)

lemma show_reliable:
  assumes "well_formed s" and "addressable s" and "reliable s"
  shows "\<exists>lb. length lb = length (linebuf s) \<and>
     show s = Returned (s\<lparr>linebuf := lb,
        bus_log := bus_log s @ frame_events s 0 (nat (height s)),
        faults := drop (6 * nat (height s)) (faults s)\<rparr>)"
proof -
  from assms(1) have h: "0 \<le> height s"
    by (simp add: well_formed_def)
  from show_loop_prefix [OF assms(1,2) order_refl reliable_take [OF assms(3)]]
  obtain lb where lb: "length lb = length (linebuf s)"
    and run: "show_loop (width s) (height s - 1) 0 s =
       show_loop (width s) (height s - 1 - int (nat (height s))) (int (nat (height s)) * width s)
         (s\<lparr>linebuf := lb, bus_log := bus_log s @ frame_events s 0 (nat (height s)),
             faults := drop (6 * nat (height s)) (faults s)\<rparr>)"
    by blast
  have "height s - 1 - int (nat (height s)) < 0"
    using h by simp
  then show ?thesis
    using lb unfolding show_def run by (intro exI [of _ lb]) (simp add: show_loop_done)
qed

lemma show_transfers:
  assumes "well_formed s" and "addressable s" and "reliable s"
  shows "\<exists>s'. show s = Returned s' \<and>
     transfers dc (emitted s s') = frame_transfers s (nat (height s)) \<and>
     buffer s' = buffer s \<and> height s' = height s \<and> width s' = width s \<and>
     length (linebuf s') = length (linebuf s)"
proof -
  from show_reliable [OF assms] obtain lb where "length lb = length (linebuf s)"
    and "show s = Returned (s\<lparr>linebuf := lb,
        bus_log := bus_log s @ frame_events s 0 (nat (height s)),
        faults := drop (6 * nat (height s)) (faults s)\<rparr>)"
    by blast
  then show ?thesis
    by (simp add: transfers_frame_events)
qed

text \<open>
  C4. On a transport that does not fail, one \<open>show\<close> of a device of height \<open>h\<close> and
  width \<open>w\<close> returns after exactly \<open>h\<close> row-address-set commands (0x2B) and exactly
  \<open>h\<close> write-memory commands (0x2C), and every write-memory payload is \<open>2w\<close> bytes
  long. The height is one whose row addresses fit the 16-bit fields of the row-address
  payload.
\<close>

theorem refresh_counts:
  assumes "well_formed s" and "addressable s" and "reliable s"
  shows "\<exists>s'. show s = Returned s' \<and>
     issued 0x2b (transfers dc (emitted s s')) = nat (height s) \<and>
     issued 0x2c (transfers dc (emitted s s')) = nat (height s) \<and>
     length (payloads 0x2c (transfers dc (emitted s s'))) = nat (height s) \<and>
     (\<forall>p \<in> set (payloads 0x2c (transfers dc (emitted s s'))). length p = nat (2 * width s))"
proof -
  from show_transfers [OF assms, of dc] obtain s' where ret: "show s = Returned s'"
    and tr: "transfers dc (emitted s s') = frame_transfers s (nat (height s))"
    by blast
  from assms(1) obtain H W where H: "height s = int H" and W: "width s = int W"
    and buf: "length (buffer s) = H * W"
    by (rule well_formed_dims)
  have len: "length (encode_line (memory_row W i (buffer s))) = 2 * W" if "i < H" for i
  proof -
    have "Suc i * W \<le> H * W"
      using that by (intro mult_le_mono1) simp
    then have "W \<le> H * W - i * W" by simp
    then show ?thesis
      by (simp add: length_encode_line memory_row_def buf)
  qed
  have a: "issued 0x2b (transfers dc (emitted s s')) = nat (height s)"
    and b: "issued 0x2c (transfers dc (emitted s s')) = nat (height s)"
    and c: "length (payloads 0x2c (transfers dc (emitted s s'))) = nat (height s)"
    by (simp_all add: tr issued_frame payloads_ramwr)
  have "\<forall>p \<in> set (payloads 0x2c (frame_transfers s H)). length p = 2 * W"
    using len by (auto simp add: payloads_ramwr W)
  then have d: "\<forall>p \<in> set (payloads 0x2c (transfers dc (emitted s s'))). length p = nat (2 * width s)"
    by (simp add: tr H W nat_mult_distrib)
  from ret a b c d show ?thesis by blast
qed

lemma panel_2x2_ok: "well_formed panel_2x2" "addressable panel_2x2" "reliable panel_2x2"
  by (simp_all add: panel_2x2_def well_formed_def addressable_def reliable_def)

lemma panel_1x2_ok: "well_formed panel_1x2" "addressable panel_1x2" "reliable panel_1x2"
  by (simp_all add: panel_1x2_def well_formed_def addressable_def reliable_def)

theorem refresh_counts_witness:
  "well_formed panel_2x2 \<and> addressable panel_2x2 \<and> reliable panel_2x2 \<and>
   (\<exists>s'. show panel_2x2 = Returned s' \<and>
     issued 0x2b (transfers False (emitted panel_2x2 s')) = nat (height panel_2x2) \<and>
     issued 0x2c (transfers False (emitted panel_2x2 s')) = nat (height panel_2x2) \<and>
     length (payloads 0x2c (transfers False (emitted panel_2x2 s'))) = nat (height panel_2x2) \<and>
     (\<forall>p \<in> set (payloads 0x2c (transfers False (emitted panel_2x2 s'))).
        length p = nat (2 * width panel_2x2)))"
  using refresh_counts [OF panel_2x2_ok, of False] panel_2x2_ok by blast

lemma nth_frame_payloads:
  assumes "i < n"
  shows "payloads 0x2b (frame_transfers s n) ! i =
           range_payload (height s - 1 - int i + 2) (height s - 1 - int i + 3)"
    and "payloads 0x2c (frame_transfers s n) ! i =
           encode_line (memory_row (nat (width s)) i (buffer s))"
  using assms by (simp_all add: payloads_raset payloads_ramwr)

text \<open>
  C3, as amended. During one \<open>show\<close> of a device of height \<open>h\<close> from 1 to 65533, the
  row-address payload of the \<open>i\<close>-th issued scanline is the four big-endian bytes of
  \<open>(row_start << 16) | row_end\<close> with \<open>row_start = (h - 1 - i) + 2\<close> and
  \<open>row_end = row_start + 1\<close>: the encoded row starts at \<open>h - 1\<close> and falls by one per
  scanline to 0. The pixels sent with the \<open>i\<close>-th scanline are those of row \<open>i\<close> of the
  buffer: the first scanline issued carries row 0 of the buffer to panel row \<open>h - 1\<close>.
\<close>

theorem refresh_rows:
  assumes "well_formed s" and "addressable s" and "reliable s" and "1 \<le> height s"
  shows "\<exists>s'. show s = Returned s' \<and>
     length (payloads 0x2b (transfers dc (emitted s s'))) = nat (height s) \<and>
     length (payloads 0x2c (transfers dc (emitted s s'))) = nat (height s) \<and>
     (\<forall>i < nat (height s).
        to_bytes (push_bit 16 (height s - 1 - int i + 2) OR (height s - 1 - int i + 2 + 1)) 4 =
          Inr (payloads 0x2b (transfers dc (emitted s s')) ! i) \<and>
        payloads 0x2b (transfers dc (emitted s s')) ! i =
          range_payload (height s - 1 - int i + 2) (height s - 1 - int i + 2 + 1) \<and>
        payloads 0x2c (transfers dc (emitted s s')) ! i =
          encode_line (memory_row (nat (width s)) i (buffer s)))"
proof -
  from show_transfers [OF assms(1-3), of dc] obtain s' where ret: "show s = Returned s'"
    and tr: "transfers dc (emitted s s') = frame_transfers s (nat (height s))"
    by blast
  have len: "length (payloads 0x2b (transfers dc (emitted s s'))) = nat (height s)"
    "length (payloads 0x2c (transfers dc (emitted s s'))) = nat (height s)"
    by (simp_all add: tr payloads_raset payloads_ramwr)
  have rows: "to_bytes (push_bit 16 (height s - 1 - int i + 2) OR (height s - 1 - int i + 2 + 1)) 4 =
          Inr (payloads 0x2b (transfers dc (emitted s s')) ! i) \<and>
        payloads 0x2b (transfers dc (emitted s s')) ! i =
          range_payload (height s - 1 - int i + 2) (height s - 1 - int i + 2 + 1) \<and>
        payloads 0x2c (transfers dc (emitted s s')) ! i =
          encode_line (memory_row (nat (width s)) i (buffer s))"
    if i: "i < nat (height s)" for i
  proof -
    let ?r = "height s - 1 - int i"
    have r: "0 \<le> ?r" "?r \<le> 65532"
      using i assms(2) by (simp_all add: addressable_def)
    have "push_bit 16 (?r + 2) OR (?r + 2 + 1) = push_bit 16 (?r + 2) + (?r + 2 + 1)"
      using r by (intro shift_or_add) simp_all
    also have "\<dots> = push_bit 16 (?r + 2) + ?r + 3"
      by simp
    finally have "to_bytes (push_bit 16 (?r + 2) OR (?r + 2 + 1)) 4 =
        Inr (range_payload (?r + 2) (?r + 3))"
      using to_bytes_raset [OF r] by simp
    moreover have "?r + 2 + 1 = ?r + 3" by simp
    ultimately show ?thesis
      unfolding tr using nth_frame_payloads [OF i, of s] by simp
  qed
  from ret len rows show ?thesis by blast
qed

theorem refresh_rows_witness:
  "well_formed panel_1x2 \<and> addressable panel_1x2 \<and> reliable panel_1x2 \<and> 1 \<le> height panel_1x2 \<and>
   (\<exists>s'. show panel_1x2 = Returned s' \<and>
     length (payloads 0x2b (transfers False (emitted panel_1x2 s'))) = nat (height panel_1x2) \<and>
     length (payloads 0x2c (transfers False (emitted panel_1x2 s'))) = nat (height panel_1x2) \<and>
     (\<forall>i < nat (height panel_1x2).
        to_bytes (push_bit 16 (height panel_1x2 - 1 - int i + 2) OR
                  (height panel_1x2 - 1 - int i + 2 + 1)) 4 =
          Inr (payloads 0x2b (transfers False (emitted panel_1x2 s')) ! i) \<and>
        payloads 0x2b (transfers False (emitted panel_1x2 s')) ! i =
          range_payload (height panel_1x2 - 1 - int i + 2) (height panel_1x2 - 1 - int i + 2 + 1) \<and>
        payloads 0x2c (transfers False (emitted panel_1x2 s')) ! i =
          encode_line (memory_row (nat (width panel_1x2)) i (buffer panel_1x2))))"
proof -
  have h: "1 \<le> height panel_1x2" by (simp add: panel_1x2_def)
  from refresh_rows [OF panel_1x2_ok h, of False] panel_1x2_ok h show ?thesis by blast
qed

lemma show_state:
  assumes "well_formed s" and "addressable s" and "reliable s"
  shows "show s = Returned (state_of (show s))"
    and "transfers dc (emitted s (state_of (show s))) = frame_transfers s (nat (height s))"
  using show_transfers [OF assms, of dc] by auto

lemma upt_2: "[0 ..< 2] = [0, 1]"
  by (simp add: upt_rec)

lemma panel_1x2_lines:
  "payloads 0x2b (transfers False (emitted panel_1x2 (state_of (show panel_1x2)))) =
     [[0, 3, 0, 4], [0, 2, 0, 3]]"
  "payloads 0x2c (transfers False (emitted panel_1x2 (state_of (show panel_1x2)))) =
     [[0x00, 0x1C], [0x00, 0x00]]"
  unfolding show_state(2) [OF panel_1x2_ok] payloads_raset payloads_ramwr
  by (simp_all add: panel_1x2_def upt_2 range_payload_def memory_row_def encode_line_def
      encode_pixel_eq)

text \<open>
  C3, as stated, fails: on a device of height 2 the first scanline issued has the row
  address of row \<open>h - 1 = 1\<close>, but its pixels are those of row 0 of the buffer, not those
  of row \<open>h - 1\<close>.
\<close>

theorem first_scanline_counterexample:
  "payloads 0x2b (transfers False (emitted panel_1x2 (state_of (show panel_1x2)))) ! 0 =
     [0, 3, 0, 4] \<and>
   payloads 0x2c (transfers False (emitted panel_1x2 (state_of (show panel_1x2)))) ! 0 =
     encode_line (memory_row 1 0 (buffer panel_1x2)) \<and>
   payloads 0x2c (transfers False (emitted panel_1x2 (state_of (show panel_1x2)))) ! 0 \<noteq>
     encode_line (memory_row 1 (nat (height panel_1x2 - 1)) (buffer panel_1x2))"
  unfolding panel_1x2_lines
  by (simp add: panel_1x2_def memory_row_def encode_line_def encode_pixel_eq)

lemma panel_2x2_lines:
  "payloads 0x2c (transfers False (emitted panel_2x2 (state_of (show panel_2x2)))) =
     [[0x00, 0x1C, 0x00, 0x00], [0x00, 0x00, 0x00, 0x00]]"
  unfolding show_state(2) [OF panel_2x2_ok] payloads_ramwr
  by (simp add: panel_2x2_def upt_2 memory_row_def encode_line_def encode_pixel_eq rgb_def)

text \<open>
  C5, as stated, fails: on the 2 by 2 device whose top-left pixel is \<open>rgb(255, 0, 0)\<close>
  the second scanline transmitted is all zero, and no pixel decoded from it has red bits
  111.
\<close>

theorem second_scanline_counterexample:
  "payloads 0x2c (transfers False (emitted panel_2x2 (state_of (show panel_2x2)))) ! 1 =
     [0, 0, 0, 0] \<and>
   decode_line [0, 0, 0, 0] = [0, 0] \<and> wire_red 0 0 \<noteq> 7"
  unfolding panel_2x2_lines
  by (simp add: wire_decode_def wire_red_def wire_green_def wire_blue_def)

text \<open>
  C5, as amended. On the 2 by 2 device whose top-left pixel is \<open>rgb(255, 0, 0)\<close> and
  whose other pixels are zero, \<open>show\<close> issues exactly two scanline transfers; the first
  one transmitted decodes to a first pixel with red bits 111 and zero green and blue,
  and the second one transmitted decodes to zero pixels.
\<close>

theorem red_pixel_scanline:
  "buffer panel_2x2 = [word_of_int (rgb 255 0 0), 0, 0, 0] \<and>
   show panel_2x2 = Returned (state_of (show panel_2x2)) \<and>
   issued 0x2c (transfers False (emitted panel_2x2 (state_of (show panel_2x2)))) = 2 \<and>
   payloads 0x2c (transfers False (emitted panel_2x2 (state_of (show panel_2x2)))) =
     [[0x00, 0x1C, 0x00, 0x00], [0x00, 0x00, 0x00, 0x00]] \<and>
   wire_red 0x00 0x1C = 7 \<and> wire_green 0x00 0x1C = 0 \<and> wire_blue 0x00 0x1C = 0 \<and>
   decode_line [0x00, 0x1C, 0x00, 0x00] = [0xE0, 0] \<and>
   decode_line [0x00, 0x00, 0x00, 0x00] = [0, 0]"
proof -
  have "issued 0x2c (transfers False (emitted panel_2x2 (state_of (show panel_2x2)))) = 2"
    unfolding show_state(2) [OF panel_2x2_ok] by (simp add: issued_frame panel_2x2_def)
  moreover have "wire_red 0x00 0x1C = 7 \<and> wire_green 0x00 0x1C = 0 \<and> wire_blue 0x00 0x1C = 0 \<and>
     decode_line [0x00, 0x1C, 0x00, 0x00] = [0xE0, 0] \<and>
     decode_line [0x00, 0x00, 0x00, 0x00] = [0, 0]"
    by (simp add: wire_decode_def wire_red_def wire_green_def wire_blue_def)
  moreover have "buffer panel_2x2 = [word_of_int (rgb 255 0 0), 0, 0, 0]"
    by (simp add: panel_2x2_def)
  ultimately show ?thesis
    using show_state(1) [OF panel_2x2_ok] panel_2x2_lines by blast
qed

subsection \<open>The addressing payloads\<close>

lemma high_byte_small: "0 \<le> a \<Longrightarrow> a < 65536 \<Longrightarrow> a div 256 mod 256 = (a::int) div 256"
proof -
  assume a: "0 \<le> a" "a < 65536"
  have "a div 256 < 256"
    using a by (simp add: div_less_iff_less_mult)
  moreover have "0 \<le> a div 256" using a by simp
  ultimately show ?thesis by simp
qed

lemma range_payload_inj:
  assumes "range_payload a b = range_payload a' b'" "0 \<le> a" "a < 65536" "0 \<le> a'" "a' < 65536"
  shows "a = a'"
proof -
  from assms(1) have hi: "(word_of_int (a div 256) :: byte) = word_of_int (a' div 256)"
    and lo: "(word_of_int a :: byte) = word_of_int a'"
    by (simp_all add: range_payload_def)
  from hi have "(a div 256) mod 256 = (a' div 256) mod 256"
    by (simp add: word_of_int_eq_iff take_bit_eq_mod)
  then have d: "a div 256 = a' div 256"
    using assms(2-5) by (simp add: high_byte_small)
  from lo have m: "a mod 256 = a' mod 256"
    by (simp add: word_of_int_eq_iff take_bit_eq_mod)
  have "a = 256 * (a div 256) + a mod 256" by simp
  also have "\<dots> = 256 * (a' div 256) + a' mod 256" by (simp only: d m)
  also have "\<dots> = a'" by simp
  finally show ?thesis .
qed

lemma caset_bytes: "range_payload 3 160 = [0x00, 0x03, 0x00, 0xA0]"
  by (simp add: range_payload_def)

subsection \<open>A transport failure during the third scanline\<close>

lemma show_line_data_fails:
  assumes row: "0 \<le> row" "row \<le> 65532"
    and wd: "0 \<le> wd" and start: "0 \<le> start"
    and buf: "nat start + nat wd \<le> length (buffer s)"
    and lb: "length (linebuf s) = 2 * nat wd"
    and fs: "take 6 (faults s) = [False, False, False, False, False, True]"
  defines "line \<equiv> encode_line (take (nat wd) (drop (nat start) (buffer s)))"
  shows "show_line wd row start s =
     Raised TransportError
       (s\<lparr>linebuf := line, bus_log := bus_log s @ butlast (scanline_events row line),
           faults := drop 6 (faults s)\<rparr>)"
proof -
  have "lcopy (linebuf s) (drop (nat start) (buffer s)) (int (nat wd)) =
      Some (encode_line (take (nat wd) (drop (nat start) (buffer s))) @
            drop (2 * nat wd) (linebuf s))"
    using buf lb by (intro lcopy_eq) simp_all
  then have copy: "lcopy (linebuf s) (slice_from start (buffer s)) wd = Some line"
    using wd start lb by (simp add: slice_from_nonneg line_def)
  have "faults s = take 6 (faults s) @ drop 6 (faults s)"
    by simp
  then have f: "faults s = False # False # False # False # False # True # drop 6 (faults s)"
    unfolding fs by simp
  have f1: "True \<notin> set (take 2 (faults s))"
    and f2: "True \<notin> set (take 2 (drop 2 (faults s)))"
    and f3: "take 2 (drop 4 (faults s)) = [False, True]"
    by (subst f, simp)+
  have cut: "butlast (scanline_events row line) =
      wcd_events [0x2a] (range_payload 3 160) @
      wcd_events [0x2b] (range_payload (row + 2) (row + 3)) @ butlast (wcd_events [0x2c] line)"
    by (simp add: scanline_events_def butlast_append wcd_events_def)
  show ?thesis
    unfolding show_line_def cut
    by (simp add: copy to_bytes_caset_value to_bytes_raset row wcd_ok wcd_data_fails f1 f2 f3)
qed

lemma show_line_fails_at:
  assumes H: "height s = int H" and W: "width s = int W"
    and buf: "length (buffer s) = H * W"
    and addr: "height s \<le> 65533" and j: "j < H"
    and lb: "length lb = 2 * W"
    and fs: "take 6 fs = [False, False, False, False, False, True]"
  shows "show_line (width s) (height s - 1 - int j) (int j * width s)
           (s\<lparr>linebuf := lb, bus_log := log, faults := fs\<rparr>) =
         Raised TransportError
           (s\<lparr>linebuf := encode_line (memory_row W j (buffer s)),
               bus_log := log @ butlast (frame_line s j), faults := drop 6 fs\<rparr>)"
proof -
  let ?s = "s\<lparr>linebuf := lb, bus_log := log, faults := fs\<rparr>"
  have "Suc j * W \<le> H * W"
    using j by (intro mult_le_mono1) simp
  then have fit: "nat (int j * int W) + nat (int W) \<le> length (buffer ?s)"
    by (simp add: buf nat_mult_distrib)
  have "show_line (int W) (int H - 1 - int j) (int j * int W) ?s =
      Raised TransportError
       (?s\<lparr>linebuf := encode_line (take (nat (int W)) (drop (nat (int j * int W)) (buffer ?s))),
         bus_log := bus_log ?s @ butlast (scanline_events (int H - 1 - int j)
            (encode_line (take (nat (int W)) (drop (nat (int j * int W)) (buffer ?s))))),
         faults := drop 6 (faults ?s)\<rparr>)"
    using j addr H fit lb fs by (intro show_line_data_fails) simp_all
  then show ?thesis
    by (simp add: H W frame_line_def memory_row_def nat_mult_distrib)
qed

lemma frame_transfers_Suc: "frame_transfers s (Suc n) = frame_transfers s n @ line_transfers s n"
  by (simp add: frame_transfers_def)

lemma last_cut_scanline: "last (butlast (scanline_events row line)) = SpiWrite line"
  by (simp add: scanline_events_def wcd_events_def butlast_append)

lemma emitted_append_state [simp]:
  "bus_log s' = bus_log s @ es \<Longrightarrow> emitted s s' = es"
  by (simp add: emitted_def)

text \<open>
  C7. If the transport raises on the write of the write-memory payload of the third
  scanline (the 18th write of the refresh), \<open>show\<close> raises that failure to its caller.
  The bus has then seen the transfers of three scanlines and nothing more: three
  write-memory commands, three column-address-set and three row-address-set commands,
  and the failed payload write is the last event.
\<close>

theorem refresh_aborts:
  assumes "well_formed s" and "addressable s" and "3 \<le> height s"
    and "take 18 (faults s) = replicate 17 False @ [True]"
  shows "\<exists>s'. show s = Raised TransportError s' \<and>
     issued 0x2c (transfers dc (emitted s s')) = 3 \<and>
     issued 0x2a (transfers dc (emitted s s')) = 3 \<and>
     issued 0x2b (transfers dc (emitted s s')) = 3 \<and>
     transfers dc (emitted s s') = frame_transfers s 3 \<and>
     length (transfers dc (emitted s s')) = 18 \<and>
     last (emitted s s') = SpiWrite (encode_line (memory_row (nat (width s)) 2 (buffer s)))"
proof -
  from assms(1) obtain H W where H: "height s = int H" and W: "width s = int W"
    and buf: "length (buffer s) = H * W" and lbs: "length (linebuf s) = 2 * W"
    by (rule well_formed_dims)
  have j: "2 < H" "2 \<le> nat (height s)"
    using assms(3) H by simp_all
  have "faults s = take 18 (faults s) @ drop 18 (faults s)"
    by simp
  then have f: "faults s = replicate 17 False @ True # drop 18 (faults s)"
    unfolding assms(4) by simp
  have f12: "True \<notin> set (take (6 * 2) (faults s))"
    by (subst f) simp
  have f6: "take 6 (drop (6 * 2) (faults s)) = [False, False, False, False, False, True]"
    by (subst f) (simp add: eval_nat_numeral)
  from show_loop_prefix [OF assms(1,2) j(2) f12]
  obtain lb where lb: "length lb = length (linebuf s)"
    and run: "show_loop (width s) (height s - 1) 0 s =
       show_loop (width s) (height s - 1 - int 2) (int 2 * width s)
         (s\<lparr>linebuf := lb, bus_log := bus_log s @ frame_events s 0 2,
             faults := drop (6 * 2) (faults s)\<rparr>)"
    by blast
  let ?line = "encode_line (memory_row W 2 (buffer s))"
  let ?s' = "s\<lparr>linebuf := ?line,
               bus_log := (bus_log s @ frame_events s 0 2) @ butlast (frame_line s 2),
               faults := drop 6 (drop (6 * 2) (faults s))\<rparr>"
  have line: "show_line (width s) (height s - 1 - int 2) (int 2 * width s)
           (s\<lparr>linebuf := lb, bus_log := bus_log s @ frame_events s 0 2,
               faults := drop (6 * 2) (faults s)\<rparr>) = Raised TransportError ?s'"
    using H W buf j(1) lb lbs f6 assms(2)
    by (intro show_line_fails_at) (simp_all add: addressable_def)
  have row: "0 \<le> height s - 1 - int 2"
    using assms(3) by simp
  have ret: "show s = Raised TransportError ?s'"
    unfolding show_def run by (rule show_loop_raise [OF row line])
  have em: "emitted s ?s' = frame_events s 0 2 @ butlast (frame_line s 2)"
    by (simp add: emitted_def)
  have "transfers dc (frame_events s 0 2 @ butlast (frame_line s 2)) =
      frame_transfers s 2 @ line_transfers s 2"
    using transfers_frame_lines [of dc s "[0 ..< 2]" "butlast (frame_line s 2)"]
    by (simp add: frame_events_def frame_transfers_def frame_line_def line_transfers_def
        transfers_scanline_cut)
  then have tr: "transfers dc (emitted s ?s') = frame_transfers s 3"
    unfolding em using frame_transfers_Suc [of s 2] by (simp add: numeral_3_eq_3 numeral_2_eq_2)
  have counts: "issued 0x2c (transfers dc (emitted s ?s')) = 3"
    "issued 0x2a (transfers dc (emitted s ?s')) = 3"
    "issued 0x2b (transfers dc (emitted s ?s')) = 3"
    "length (transfers dc (emitted s ?s')) = 18"
    unfolding tr by (simp_all add: issued_frame length_frame_transfers)
  have "last (emitted s ?s') = SpiWrite ?line"
    unfolding em by (simp add: frame_line_def W last_cut_scanline scanline_events_def wcd_events_def)
  then have lst: "last (emitted s ?s') = SpiWrite (encode_line (memory_row (nat (width s)) 2 (buffer s)))"
    by (simp add: W)
  from ret tr counts lst show ?thesis by blast
qed

lemma panel_faulty_ok: "well_formed panel_faulty" "addressable panel_faulty"
  "3 \<le> height panel_faulty" "take 18 (faults panel_faulty) = replicate 17 False @ [True]"
  by (simp_all add: panel_faulty_def well_formed_def addressable_def)

theorem refresh_aborts_witness:
  "well_formed panel_faulty \<and> addressable panel_faulty \<and> 3 \<le> height panel_faulty \<and>
   take 18 (faults panel_faulty) = replicate 17 False @ [True] \<and>
   (\<exists>s'. show panel_faulty = Raised TransportError s' \<and>
     issued 0x2c (transfers False (emitted panel_faulty s')) = 3 \<and>
     issued 0x2a (transfers False (emitted panel_faulty s')) = 3 \<and>
     issued 0x2b (transfers False (emitted panel_faulty s')) = 3 \<and>
     transfers False (emitted panel_faulty s') = frame_transfers panel_faulty 3 \<and>
     length (transfers False (emitted panel_faulty s')) = 18 \<and>
     last (emitted panel_faulty s') =
       SpiWrite (encode_line (memory_row (nat (width panel_faulty)) 2 (buffer panel_faulty))))"
  using refresh_aborts [OF panel_faulty_ok, of False] panel_faulty_ok by blast

subsection \<open>The frame of the device\<close>

lemma same_frame_refl [simp]: "same_frame s s"
  by (simp add: same_frame_def)

lemma same_frame_trans: "same_frame s t \<Longrightarrow> same_frame t u \<Longrightarrow> same_frame s u"
  by (simp add: same_frame_def)

lemma keeps_run: "\<forall>f \<in> set fs. keeps f \<Longrightarrow> keeps (run fs)"
proof (induction fs)
  case Nil
  show ?case by (simp add: keeps_def)
next
  case (Cons f fs)
  then have f: "keeps f" and fs: "keeps (run fs)" by simp_all
  show ?case
    unfolding keeps_def
  proof
    fix s
    show "same_frame s (state_of (run (f # fs) s))"
    proof (cases "f s")
      case (Returned s1)
      with f have "same_frame s s1"
        by (metis keeps_def state_of.simps(1))
      moreover from fs have "same_frame s1 (state_of (run fs s1))"
        by (simp add: keeps_def)
      ultimately show ?thesis
        using Returned by (auto intro: same_frame_trans)
    next
      case (Raised e s1)
      with f have "same_frame s s1"
        by (metis keeps_def state_of.simps(2))
      then show ?thesis using Raised by simp
    qed
  qed
qed

lemma keeps_pin_call [simp]: "keeps (pin_call p v)"
  by (simp add: keeps_def pin_call_def same_frame_def)

lemma keeps_sleep_ms [simp]: "keeps (sleep_ms t)"
  by (simp add: keeps_def sleep_ms_def same_frame_def)

lemma keeps_spi_write [simp]: "keeps (spi_write buf)"
  by (simp add: keeps_def spi_write_def same_frame_def Let_def)

lemma keeps_wcd [simp]: "keeps (wcd c d)"
  unfolding wcd_def by (rule keeps_run) simp

lemma keeps_wcmd [simp]: "keeps (wcmd c)"
  unfolding wcmd_def by (rule keeps_run) simp

lemma keeps_hwreset [simp]: "keeps hwreset"
  unfolding hwreset_def by (rule keeps_run) simp

lemma keeps_init: "keeps init"
  unfolding init_def by (rule keeps_run) simp

lemma length_lcopy_loop:
  "lcopy_loop xs n dest source = Some out \<Longrightarrow> length out = length dest"
  by (induction xs arbitrary: n dest) (auto simp add: Let_def split: if_splits)

lemma length_lcopy: "lcopy dest source len = Some out \<Longrightarrow> length out = length dest"
  unfolding lcopy_def by (rule length_lcopy_loop)

lemma keeps_show_line: "keeps (show_line wd row start)"
  unfolding show_line_def
proof (rule keeps_run, safe)
  fix f
  assume "f \<in> set
     [\<lambda>self. case lcopy (linebuf self) (slice_from start (buffer self)) wd of
                None \<Rightarrow> Raised MemoryFault self
              | Some lb \<Rightarrow> Returned (self\<lparr>linebuf := lb\<rparr>),
      \<lambda>self. case to_bytes (push_bit 16 3 + 160) 4 of
                Inl e \<Rightarrow> Raised e self
              | Inr d \<Rightarrow> wcd [0x2a] d self,
      \<lambda>self. case to_bytes (push_bit 16 (row + 2) + row + 3) 4 of
                Inl e \<Rightarrow> Raised e self
              | Inr d \<Rightarrow> wcd [0x2b] d self,
      \<lambda>self. wcd [0x2c] (linebuf self) self]"
  then consider
      (copy) "f = (\<lambda>self. case lcopy (linebuf self) (slice_from start (buffer self)) wd of
                None \<Rightarrow> Raised MemoryFault self
              | Some lb \<Rightarrow> Returned (self\<lparr>linebuf := lb\<rparr>))"
    | (caset) "f = (\<lambda>self. case to_bytes (push_bit 16 3 + 160) 4 of
                Inl e \<Rightarrow> Raised e self
              | Inr d \<Rightarrow> wcd [0x2a] d self)"
    | (raset) "f = (\<lambda>self. case to_bytes (push_bit 16 (row + 2) + row + 3) 4 of
                Inl e \<Rightarrow> Raised e self
              | Inr d \<Rightarrow> wcd [0x2b] d self)"
    | (ramwr) "f = (\<lambda>self. wcd [0x2c] (linebuf self) self)"
    by auto
  then show "keeps f"
  proof cases
    case copy
    show ?thesis
      unfolding copy keeps_def
      by (auto simp add: same_frame_def length_lcopy split: option.splits)
  next
    case caset
    show ?thesis
      unfolding caset keeps_def using keeps_wcd
      by (auto simp add: keeps_def split: sum.splits)
  next
    case raset
    show ?thesis
      unfolding raset keeps_def using keeps_wcd
      by (auto simp add: keeps_def split: sum.splits)
  next
    case ramwr
    show ?thesis
      unfolding ramwr keeps_def using keeps_wcd
      by (auto simp add: keeps_def)
  qed
qed

lemma same_frame_show_loop: "same_frame s (state_of (show_loop wd row start s))"
proof (induction wd row start s rule: show_loop.induct)
  case (1 wd row start s)
  show ?case
  proof (cases "0 \<le> row")
    case False
    then show ?thesis by (simp add: show_loop_done)
  next
    case True
    have line: "same_frame s (state_of (show_line wd row start s))"
      using keeps_show_line by (simp add: keeps_def)
    show ?thesis
    proof (cases "show_line wd row start s")
      case (Returned s1)
      from "1.IH" [OF True Returned]
      have "same_frame s1 (state_of (show_loop wd (row - 1) (start + wd) s1))" .
      moreover from line Returned have "same_frame s s1" by simp
      ultimately show ?thesis
        unfolding show_loop_step [OF True Returned] by (rule same_frame_trans [rotated])
    next
      case (Raised e s1)
      with line show ?thesis
        unfolding show_loop_raise [OF True Raised] by simp
    qed
  qed
qed

lemma keeps_show: "keeps show"
  by (simp add: keeps_def show_def same_frame_show_loop)

text \<open>
  C9. \<open>show\<close> never writes to the pixel buffer: whatever the buffer holds and whether
  the call returns or raises, the buffer, the width and the height are afterwards what
  they were; the codec writes into the line buffer only, which keeps its length.
\<close>

theorem pixel_buffer_unchanged:
  assumes "well_formed s"
  shows "buffer (state_of (show s)) = buffer s \<and>
     height (state_of (show s)) = height s \<and> width (state_of (show s)) = width s \<and>
     well_formed (state_of (show s))"
proof -
  have "same_frame s (state_of (show s))"
    using keeps_show by (simp add: keeps_def)
  then show ?thesis
    using assms by (simp add: same_frame_def well_formed_def)
qed

theorem pixel_buffer_unchanged_witness:
  "well_formed panel_faulty \<and>
   buffer (state_of (show panel_faulty)) = buffer panel_faulty \<and>
   height (state_of (show panel_faulty)) = height panel_faulty \<and>
   width (state_of (show panel_faulty)) = width panel_faulty \<and>
   well_formed (state_of (show panel_faulty)) \<and>
   buffer (state_of (show panel_faulty)) = [0xE0, 0x1C, 0x03, 0xFF]"
proof -
  have "buffer panel_faulty = [0xE0, 0x1C, 0x03, 0xFF]"
    by (simp add: panel_faulty_def)
  with pixel_buffer_unchanged [OF panel_faulty_ok(1)] panel_faulty_ok(1) show ?thesis
    by simp
qed

subsection \<open>Chip-select framing\<close>

lemma frame_run_append:
  "frame_run st (xs @ ys) =
     (case frame_run st xs of None \<Rightarrow> None | Some st' \<Rightarrow> frame_run st' ys)"
  by (induction xs arbitrary: st) (simp_all split: option.splits)

lemma frames_fromI:
  assumes "bus_log (state_of r) = bus_log s @ es" and "frame_run Idle es \<noteq> None"
    and "\<And>s'. r = Returned s' \<Longrightarrow> frame_run Idle es = Some Idle"
  shows "frames_from s r"
  unfolding frames_from_def using assms by blast

lemma frames_from_Returned_self [simp]: "frames_from s (Returned s)"
  by (rule frames_fromI [of _ _ "[]"]) simp_all

lemma frames_from_Raised_self [simp]: "frames_from s (Raised e s)"
  by (rule frames_fromI [of _ _ "[]"]) simp_all

lemma frames_from_then:
  assumes "frames_from s (Returned s1)" and "frames_from s1 r"
  shows "frames_from s r"
proof -
  from assms(1) obtain es where es: "bus_log s1 = bus_log s @ es" "frame_run Idle es = Some Idle"
    by (auto simp add: frames_from_def)
  from assms(2) obtain fs where fs: "bus_log (state_of r) = bus_log s1 @ fs"
    "frame_run Idle fs \<noteq> None" "\<And>s'. r = Returned s' \<Longrightarrow> frame_run Idle fs = Some Idle"
    by (auto simp add: frames_from_def)
  show ?thesis
  proof (rule frames_fromI [of _ _ "es @ fs"])
    show "bus_log (state_of r) = bus_log s @ es @ fs"
      using es(1) fs(1) by simp
    show "frame_run Idle (es @ fs) \<noteq> None"
      using es(2) fs(2) by (simp add: frame_run_append)
    show "frame_run Idle (es @ fs) = Some Idle" if "r = Returned s'" for s'
      using es(2) fs(3) [OF that] by (simp add: frame_run_append)
  qed
qed

lemma frames_from_Raised:
  "frames_from s (Raised e s1) \<Longrightarrow> frames_from s (Raised e' s1)"
  by (auto simp add: frames_from_def)

lemma frames_run: "\<forall>f \<in> set fs. frames f \<Longrightarrow> frames (run fs)"
proof (induction fs)
  case Nil
  show ?case by (simp add: frames_def)
next
  case (Cons f fs)
  then have f: "\<And>s. frames_from s (f s)" and fs: "\<And>s. frames_from s (run fs s)"
    by (simp_all add: frames_def)
  show ?case
    unfolding frames_def
  proof
    fix s
    show "frames_from s (run (f # fs) s)"
    proof (cases "f s")
      case (Returned s1)
      with f [of s] fs [of s1] show ?thesis
        by (auto intro: frames_from_then)
    next
      case (Raised e s1)
      with f [of s] show ?thesis by simp
    qed
  qed
qed

lemma frames_pin_DC [simp]: "frames (pin_call DC v)"
  unfolding frames_def pin_call_def
  by (auto intro!: frames_fromI [of _ _ "[PinSet DC v]"])

lemma frames_pin_RST [simp]: "frames (pin_call RST v)"
  unfolding frames_def pin_call_def
  by (auto intro!: frames_fromI [of _ _ "[PinSet RST v]"])

lemma frames_sleep_ms [simp]: "frames (sleep_ms t)"
  unfolding frames_def sleep_ms_def
  by (auto intro!: frames_fromI [of _ _ "[SleepMs t]"])

lemma frames_wcmd [simp]: "frames (wcmd c)"
  unfolding frames_def
proof
  fix s
  show "frames_from s (wcmd c s)"
  proof (cases "take 1 (faults s) = [True]")
    case True
    then show ?thesis
      by (intro frames_fromI [of _ _ "[PinSet DC False, PinSet CS False, SpiWrite c]"])
        (simp_all add: wcmd_def pin_call_def spi_write_def)
  next
    case False
    then show ?thesis
      by (intro frames_fromI [of _ _ "wcmd_events c"])
        (simp_all add: wcmd_def pin_call_def spi_write_def wcmd_events_def)
  qed
qed

lemma frames_wcd [simp]: "frames (wcd c d)"
  unfolding frames_def
proof
  fix s
  show "frames_from s (wcd c d s)"
  proof (cases "take 1 (faults s) = [True]")
    case True
    then show ?thesis
      by (intro frames_fromI [of _ _ "[PinSet DC False, PinSet CS False, SpiWrite c]"])
        (simp_all add: wcd_def pin_call_def spi_write_def)
  next
    case False
    show ?thesis
    proof (cases "take 1 (drop 1 (faults s)) = [True]")
      case True
      with False show ?thesis
        by (intro frames_fromI [of _ _ "butlast (wcd_events c d)"])
          (simp_all add: wcd_def pin_call_def spi_write_def wcd_events_def)
    next
      case second: False
      with False show ?thesis
        by (intro frames_fromI [of _ _ "wcd_events c d"])
          (simp_all add: wcd_def pin_call_def spi_write_def wcd_events_def)
    qed
  qed
qed

lemma frames_hwreset [simp]: "frames hwreset"
  unfolding hwreset_def by (rule frames_run) simp

lemma frames_init: "frames init"
  unfolding init_def by (rule frames_run) simp

lemma frames_copy_step:
  "frames (\<lambda>self. case lcopy (linebuf self) (slice_from start (buffer self)) wd of
                None \<Rightarrow> Raised MemoryFault self
              | Some lb \<Rightarrow> Returned (self\<lparr>linebuf := lb\<rparr>))"
  unfolding frames_def
  by (auto intro!: frames_fromI [of _ _ "[]"] split: option.splits)

lemma frames_command_step:
  "frames (\<lambda>self. case to_bytes v n of Inl e \<Rightarrow> Raised e self | Inr d \<Rightarrow> wcd c d self)"
  using frames_wcd by (cases "to_bytes v n") (simp_all add: frames_def)

lemma frames_line_step: "frames (\<lambda>self. wcd c (linebuf self) self)"
  using frames_wcd by (simp add: frames_def)

lemma frames_show_line: "frames (show_line wd row start)"
  unfolding show_line_def
  by (rule frames_run) (simp add: frames_copy_step frames_command_step frames_line_step)

lemma frames_from_show_loop: "frames_from s (show_loop wd row start s)"
proof (induction wd row start s rule: show_loop.induct)
  case (1 wd row start s)
  show ?case
  proof (cases "0 \<le> row")
    case False
    then show ?thesis by (simp add: show_loop_done)
  next
    case True
    have line: "frames_from s (show_line wd row start s)"
      using frames_show_line by (simp add: frames_def)
    show ?thesis
    proof (cases "show_line wd row start s")
      case (Returned s1)
      from "1.IH" [OF True Returned]
      have "frames_from s1 (show_loop wd (row - 1) (start + wd) s1)" .
      moreover from line Returned have "frames_from s (Returned s1)" by simp
      ultimately show ?thesis
        unfolding show_loop_step [OF True Returned] by (rule frames_from_then [rotated])
    next
      case (Raised e s1)
      with line show ?thesis
        unfolding show_loop_raise [OF True Raised] by simp
    qed
  qed
qed

lemma frames_show: "frames show"
  by (simp add: frames_def show_def frames_from_show_loop)

lemma frames_construct: "frames (run [init, show])"
  by (rule frames_run) (simp add: frames_init frames_show)

lemma frames_framed:
  assumes "frames f"
  shows "framed (emitted s (state_of (f s)))"
proof -
  from assms obtain es where "bus_log (state_of (f s)) = bus_log s @ es"
    and "frame_run Idle es \<noteq> None"
    unfolding frames_def frames_from_def by blast
  then show ?thesis
    by (simp add: framed_def emitted_def)
qed

lemma frame_run_written:
  "frame_run Written es = Some st \<Longrightarrow> PinSet CS True \<notin> set es \<Longrightarrow>
   st = Written \<and> (\<forall>b. SpiWrite b \<notin> set es)"
proof (induction es)
  case Nil
  then show ?case by simp
next
  case (Cons e es)
  show ?case
  proof (cases e)
    case (PinSet p v)
    with Cons show ?thesis
      by (cases p) (auto split: if_splits)
  next
    case (SpiWrite b)
    with Cons.prems show ?thesis by simp
  next
    case (SleepMs t)
    with Cons show ?thesis by auto
  qed
qed

lemma frame_step_write: "frame_step st (SpiWrite a) = Some st' \<Longrightarrow> st' = Written"
  by (simp split: if_splits)

lemma framed_separates:
  assumes ok: "frame_run st es \<noteq> None" and ij: "i < j" "j < length es"
    and wi: "es ! i = SpiWrite a" and wj: "es ! j = SpiWrite b"
  shows "\<exists>k. i < k \<and> k < j \<and> es ! k = PinSet CS True"
proof (rule ccontr)
  assume no: "\<not> (\<exists>k. i < k \<and> k < j \<and> es ! k = PinSet CS True)"
  define pre where "pre = take i es"
  define mid where "mid = take (j - Suc i) (drop (Suc i) es)"
  define post where "post = drop (Suc j) es"
  have "drop (Suc i) es = mid @ SpiWrite b # post"
  proof -
    have "j - Suc i < length (drop (Suc i) es)"
      using ij by simp
    from id_take_nth_drop [OF this] show ?thesis
      using ij wj by (simp add: mid_def post_def)
  qed
  moreover have "es = pre @ SpiWrite a # drop (Suc i) es"
    using id_take_nth_drop [of i es] ij wi by (simp add: pre_def)
  ultimately have es: "es = pre @ SpiWrite a # mid @ SpiWrite b # post"
    by simp
  from ok obtain st1 where st1: "frame_run st pre = Some st1"
    and rest: "frame_run st1 (SpiWrite a # mid @ SpiWrite b # post) \<noteq> None"
    by (subst (asm) es) (auto simp add: frame_run_append split: option.splits)
  from rest have rest': "frame_run Written (mid @ SpiWrite b # post) \<noteq> None"
    by (auto split: option.splits if_splits)
  then obtain st2 where st2: "frame_run Written mid = Some st2"
    and tail: "frame_run st2 (SpiWrite b # post) \<noteq> None"
    by (auto simp add: frame_run_append split: option.splits)
  have "PinSet CS True \<notin> set mid"
  proof
    assume "PinSet CS True \<in> set mid"
    then obtain m where m: "m < length mid" "mid ! m = PinSet CS True"
      by (auto simp add: in_set_conv_nth)
    then have "m < j - Suc i"
      by (simp add: mid_def)
    moreover from this m(2) have "es ! (Suc i + m) = PinSet CS True"
      using ij by (simp add: mid_def)
    ultimately show False
      using no by (auto dest: spec [of _ "Suc i + m"])
  qed
  from frame_run_written [OF st2 this] have "st2 = Written" by simp
  with tail show False by simp
qed

text \<open>
  C6. The pin assertions and bus writes of \<open>show\<close>, of \<open>_init\<close> and of \<open>_init\<close>
  followed by \<open>show\<close> are framed: every write falls into a chip-select assertion of its
  own, and data/command select changes only while chip-select is idle. So between any two
  bus writes, be they the command and the data of one transaction or writes of two
  transactions, chip-select is deasserted.
\<close>

theorem chip_select_framing:
  assumes "es = emitted s (state_of (show s)) \<or> es = emitted s (state_of (init s)) \<or>
           es = emitted s (state_of (run [init, show] s))"
  shows "framed es \<and>
     (\<forall>i j a b. i < j \<and> j < length es \<and> es ! i = SpiWrite a \<and> es ! j = SpiWrite b \<longrightarrow>
        (\<exists>k. i < k \<and> k < j \<and> es ! k = PinSet CS True))"
proof -
  have "framed es"
    using assms frames_framed [OF frames_show, of s] frames_framed [OF frames_init, of s]
      frames_framed [OF frames_construct, of s]
    by auto
  moreover from this have "frame_run Idle es \<noteq> None"
    by (simp add: framed_def)
  ultimately show ?thesis
    using framed_separates [of Idle es] by blast
qed

lemma show_emitted:
  assumes "well_formed s" and "addressable s" and "reliable s"
  shows "emitted s (state_of (show s)) = frame_events s 0 (nat (height s))"
  using show_reliable [OF assms] by auto

lemma refresh_log_events:
  "refresh_log = scanline_events 1 [0x00, 0x1C] @ scanline_events 0 [0x00, 0x00]"
  unfolding refresh_log_def show_emitted [OF panel_1x2_ok]
  by (simp add: panel_1x2_def frame_events_def upt_2 frame_line_def memory_row_def
      encode_line_def encode_pixel_eq)

theorem chip_select_framing_witness:
  "(refresh_log = emitted panel_1x2 (state_of (show panel_1x2)) \<or>
    refresh_log = emitted panel_1x2 (state_of (init panel_1x2)) \<or>
    refresh_log = emitted panel_1x2 (state_of (run [init, show] panel_1x2))) \<and>
   framed refresh_log \<and>
   (2::nat) < 6 \<and> 6 < length refresh_log \<and>
   refresh_log ! 2 = SpiWrite [0x2a] \<and> refresh_log ! 6 = SpiWrite [0x00, 0x03, 0x00, 0xA0] \<and>
   (\<exists>k. 2 < k \<and> k < 6 \<and> refresh_log ! k = PinSet CS True)"
proof -
  have h: "refresh_log = emitted panel_1x2 (state_of (show panel_1x2)) \<or>
    refresh_log = emitted panel_1x2 (state_of (init panel_1x2)) \<or>
    refresh_log = emitted panel_1x2 (state_of (run [init, show] panel_1x2))"
    by (simp add: refresh_log_def)
  have w: "(2::nat) < 6 \<and> 6 < length refresh_log \<and>
     refresh_log ! 2 = SpiWrite [0x2a] \<and> refresh_log ! 6 = SpiWrite [0x00, 0x03, 0x00, 0xA0]"
    unfolding refresh_log_events
    by (simp add: scanline_events_def wcd_events_def range_payload_def)
  from chip_select_framing [OF h] have f: "framed refresh_log"
    and sep: "\<forall>i j a b. i < j \<and> j < length refresh_log \<and> refresh_log ! i = SpiWrite a \<and>
        refresh_log ! j = SpiWrite b \<longrightarrow>
        (\<exists>k. i < k \<and> k < j \<and> refresh_log ! k = PinSet CS True)"
    by blast+
  from sep w have "\<exists>k. 2 < k \<and> k < 6 \<and> refresh_log ! k = PinSet CS True"
    by blast
  with h f w show ?thesis by blast
qed

subsection \<open>The constructor\<close>

lemma keeps_construct_steps: "keeps (run [init, show])"
  by (rule keeps_run) (simp add: keeps_init keeps_show)

lemma construct_well_formed:
  assumes "construct fs ht wd = Inr self" and "0 \<le> ht"
  shows "well_formed self \<and> height self = ht \<and> width self = wd"
proof -
  let ?new = "\<lparr>height = ht, width = wd, buffer = replicate (nat (ht * wd)) 0,
      linebuf = replicate (nat (wd * 2)) 0, bus_log = [], faults = fs\<rparr>"
  from assms(1) have wd: "0 \<le> wd" and ret: "run [init, show] ?new = Returned self"
    by (auto simp add: construct_def bytearray_def split: if_splits outcome.splits)
  have "same_frame ?new (state_of (run [init, show] ?new))"
    using keeps_construct_steps by (simp only: keeps_def)
  then have "same_frame ?new self"
    by (simp only: ret state_of.simps)
  then show ?thesis
    using assms(2) wd by (simp add: same_frame_def well_formed_def)
qed

text \<open>On a reliable transport every statement of the driver returns.\<close>

lemma returns_run:
  assumes "\<forall>f \<in> set fs. \<forall>s. reliable s \<longrightarrow> (\<exists>s'. f s = Returned s' \<and> reliable s')"
    and "reliable s"
  shows "\<exists>s'. run fs s = Returned s' \<and> reliable s'"
  using assms
proof (induction fs arbitrary: s)
  case Nil
  then show ?case by simp
next
  case (Cons f fs)
  from Cons.prems obtain s1 where "f s = Returned s1" "reliable s1"
    by auto
  moreover from Cons.IH [OF _ this(2)] Cons.prems(1)
  obtain s' where "run fs s1 = Returned s'" "reliable s'"
    by auto
  ultimately show ?case by simp
qed

lemma returns_pin_call: "reliable s \<Longrightarrow> \<exists>s'. pin_call p v s = Returned s' \<and> reliable s'"
  by (simp add: pin_call_def reliable_def)

lemma returns_sleep_ms: "reliable s \<Longrightarrow> \<exists>s'. sleep_ms t s = Returned s' \<and> reliable s'"
  by (simp add: sleep_ms_def reliable_def)

lemma returns_spi_write: "reliable s \<Longrightarrow> \<exists>s'. spi_write b s = Returned s' \<and> reliable s'"
  by (cases "faults s") (auto simp add: spi_write_def reliable_def dest: in_set_dropD)

lemmas returns_primitive = returns_pin_call returns_sleep_ms returns_spi_write

lemma returns_hwreset: "reliable s \<Longrightarrow> \<exists>s'. hwreset s = Returned s' \<and> reliable s'"
  unfolding hwreset_def by (rule returns_run) (simp_all add: returns_primitive)

lemma returns_wcmd: "reliable s \<Longrightarrow> \<exists>s'. wcmd c s = Returned s' \<and> reliable s'"
  unfolding wcmd_def by (rule returns_run) (simp_all add: returns_primitive)

lemma returns_wcd: "reliable s \<Longrightarrow> \<exists>s'. wcd c d s = Returned s' \<and> reliable s'"
  unfolding wcd_def by (rule returns_run) (simp_all add: returns_primitive)

lemma returns_init: "reliable s \<Longrightarrow> \<exists>s'. init s = Returned s' \<and> reliable s'"
  unfolding init_def by (rule returns_run) (simp_all add: returns_hwreset returns_wcmd returns_wcd returns_primitive)

lemma construct_returns:
  assumes "0 \<le> ht" "ht \<le> 65533" "0 \<le> wd" "True \<notin> set fs"
  shows "\<exists>self. construct fs ht wd = Inr self \<and> well_formed self \<and>
     height self = ht \<and> width self = wd"
proof -
  let ?new = "\<lparr>height = ht, width = wd, buffer = replicate (nat (ht * wd)) 0,
      linebuf = replicate (nat (wd * 2)) 0, bus_log = [], faults = fs\<rparr>"
  have "reliable ?new"
    using assms(4) by (simp add: reliable_def)
  from returns_init [OF this] obtain s1 where s1: "init ?new = Returned s1" "reliable s1"
    by blast
  have "same_frame ?new (state_of (init ?new))"
    using keeps_init by (simp only: keeps_def)
  then have frame: "same_frame ?new s1"
    by (simp only: s1 state_of.simps)
  then have "well_formed s1" "addressable s1"
    using assms(1-3) by (simp_all add: same_frame_def well_formed_def addressable_def)
  from show_transfers [OF this s1(2)] obtain s2 where "show s1 = Returned s2"
    by blast
  with s1(1) have "run [init, show] ?new = Returned s2"
    by simp
  moreover have "0 \<le> ht * wd"
    using assms(1,3) by simp
  ultimately have "construct fs ht wd = Inr s2"
    using assms(3) by (simp add: construct_def bytearray_def)
  with construct_well_formed [OF this assms(1)] show ?thesis
    by blast
qed

subsection \<open>A refresh on any transport\<close>

lemma wcd_outcome:
  "\<exists>es fs. wcd c d s = Returned (s\<lparr>bus_log := bus_log s @ wcd_events c d, faults := fs\<rparr>) \<or>
     wcd c d s = Raised TransportError (s\<lparr>bus_log := bus_log s @ es, faults := fs\<rparr>) \<and>
     (\<exists>zs. wcd_events c d = es @ zs)"
proof (cases "take 1 (faults s) = [True]")
  case True
  then have "wcd c d s = Raised TransportError
      (s\<lparr>bus_log := bus_log s @ [PinSet DC False, PinSet CS False, SpiWrite c],
         faults := drop 1 (faults s)\<rparr>)"
    by (simp add: wcd_def pin_call_def spi_write_def)
  moreover have "\<exists>zs. wcd_events c d = [PinSet DC False, PinSet CS False, SpiWrite c] @ zs"
    by (simp add: wcd_events_def)
  ultimately show ?thesis by blast
next
  case False
  show ?thesis
  proof (cases "take 1 (drop 1 (faults s)) = [True]")
    case True
    with False have "wcd c d s = Raised TransportError
        (s\<lparr>bus_log := bus_log s @ butlast (wcd_events c d), faults := drop 2 (faults s)\<rparr>)"
      by (simp add: wcd_def pin_call_def spi_write_def wcd_events_def numeral_2_eq_2)
    moreover have "\<exists>zs. wcd_events c d = butlast (wcd_events c d) @ zs"
      by (simp add: wcd_events_def)
    ultimately show ?thesis by blast
  next
    case second: False
    with False have "wcd c d s = Returned
        (s\<lparr>bus_log := bus_log s @ wcd_events c d, faults := drop 2 (faults s)\<rparr>)"
      by (simp add: wcd_def pin_call_def spi_write_def wcd_events_def numeral_2_eq_2)
    then show ?thesis by blast
  qed
qed

lemma run_single: "run [f] s = f s"
  by (cases "f s") simp_all

lemma run_pair:
  "run [f, g] s = (case f s of Returned s' \<Rightarrow> g s' | Raised e s' \<Rightarrow> Raised e s')"
proof (cases "f s")
  case (Returned s1)
  then have "run [f, g] s = run [g] s1" by simp
  then show ?thesis by (simp only: run_single Returned outcome.case)
next
  case (Raised e s1)
  then show ?thesis by simp
qed

lemma show_line_outcome:
  assumes row: "0 \<le> row" "row \<le> 65532"
    and wd: "0 \<le> wd" and start: "0 \<le> start"
    and buf: "nat start + nat wd \<le> length (buffer s)"
    and lb: "length (linebuf s) = 2 * nat wd"
  defines "line \<equiv> encode_line (take (nat wd) (drop (nat start) (buffer s)))"
  shows "\<exists>es fs.
     show_line wd row start s =
       Returned (s\<lparr>linebuf := line, bus_log := bus_log s @ scanline_events row line,
                   faults := fs\<rparr>) \<or>
     show_line wd row start s =
       Raised TransportError (s\<lparr>linebuf := line, bus_log := bus_log s @ es, faults := fs\<rparr>) \<and>
     (\<exists>zs. scanline_events row line = es @ zs)"
proof -
  have "lcopy (linebuf s) (drop (nat start) (buffer s)) (int (nat wd)) =
      Some (encode_line (take (nat wd) (drop (nat start) (buffer s))) @
            drop (2 * nat wd) (linebuf s))"
    using buf lb by (intro lcopy_eq) simp_all
  then have copy: "lcopy (linebuf s) (slice_from start (buffer s)) wd = Some line"
    using wd start lb by (simp add: slice_from_nonneg line_def)
  let ?caset = "wcd_events [0x2a] (range_payload 3 160)"
  let ?raset = "wcd_events [0x2b] (range_payload (row + 2) (row + 3))"
  let ?ramwr = "wcd_events [0x2c] line"
  let ?s1 = "s\<lparr>linebuf := line\<rparr>"
  have line: "show_line wd row start s =
      run [wcd [0x2a] (range_payload 3 160), wcd [0x2b] (range_payload (row + 2) (row + 3)),
           \<lambda>self. wcd [0x2c] (linebuf self) self] ?s1"
    by (simp add: show_line_def copy to_bytes_caset_value to_bytes_raset row)
  from wcd_outcome [of "[0x2a]" "range_payload 3 160" ?s1] obtain es1 fs1 where
    "wcd [0x2a] (range_payload 3 160) ?s1 =
       Returned (?s1\<lparr>bus_log := bus_log ?s1 @ ?caset, faults := fs1\<rparr>) \<or>
     wcd [0x2a] (range_payload 3 160) ?s1 =
       Raised TransportError (?s1\<lparr>bus_log := bus_log ?s1 @ es1, faults := fs1\<rparr>) \<and>
     (\<exists>zs. ?caset = es1 @ zs)"
    by blast
  then show ?thesis
  proof (elim disjE conjE exE)
    fix zs
    assume "wcd [0x2a] (range_payload 3 160) ?s1 =
       Raised TransportError (?s1\<lparr>bus_log := bus_log ?s1 @ es1, faults := fs1\<rparr>)"
      and "?caset = es1 @ zs"
    then have "show_line wd row start s =
        Raised TransportError (s\<lparr>linebuf := line, bus_log := bus_log s @ es1, faults := fs1\<rparr>)"
      and "scanline_events row line = es1 @ (zs @ ?raset @ ?ramwr)"
      by (simp_all add: line scanline_events_def)
    then show ?thesis by blast
  next
    let ?s2 = "s\<lparr>linebuf := line, bus_log := bus_log s @ ?caset, faults := fs1\<rparr>"
    assume "wcd [0x2a] (range_payload 3 160) ?s1 =
       Returned (?s1\<lparr>bus_log := bus_log ?s1 @ ?caset, faults := fs1\<rparr>)"
    then have line2: "show_line wd row start s =
      run [wcd [0x2b] (range_payload (row + 2) (row + 3)),
           \<lambda>self. wcd [0x2c] (linebuf self) self] ?s2"
      by (simp add: line)
    from wcd_outcome [of "[0x2b]" "range_payload (row + 2) (row + 3)" ?s2] obtain es2 fs2 where
      "wcd [0x2b] (range_payload (row + 2) (row + 3)) ?s2 =
         Returned (?s2\<lparr>bus_log := bus_log ?s2 @ ?raset, faults := fs2\<rparr>) \<or>
       wcd [0x2b] (range_payload (row + 2) (row + 3)) ?s2 =
         Raised TransportError (?s2\<lparr>bus_log := bus_log ?s2 @ es2, faults := fs2\<rparr>) \<and>
       (\<exists>zs. ?raset = es2 @ zs)"
      by blast
    then show ?thesis
    proof (elim disjE conjE exE)
      fix zs
      assume "wcd [0x2b] (range_payload (row + 2) (row + 3)) ?s2 =
         Raised TransportError (?s2\<lparr>bus_log := bus_log ?s2 @ es2, faults := fs2\<rparr>)"
        and "?raset = es2 @ zs"
      then have "show_line wd row start s =
          Raised TransportError
            (s\<lparr>linebuf := line, bus_log := bus_log s @ (?caset @ es2), faults := fs2\<rparr>)"
        and "scanline_events row line = (?caset @ es2) @ (zs @ ?ramwr)"
        by (simp_all add: line2 scanline_events_def)
      then show ?thesis by blast
    next
      let ?s3 = "s\<lparr>linebuf := line, bus_log := bus_log s @ ?caset @ ?raset, faults := fs2\<rparr>"
      assume "wcd [0x2b] (range_payload (row + 2) (row + 3)) ?s2 =
         Returned (?s2\<lparr>bus_log := bus_log ?s2 @ ?raset, faults := fs2\<rparr>)"
      then have line3: "show_line wd row start s = wcd [0x2c] line ?s3"
        unfolding line2 by (simp add: run_pair del: run.simps(2))
      from wcd_outcome [of "[0x2c]" line ?s3] obtain es3 fs3 where
        "wcd [0x2c] line ?s3 =
           Returned (?s3\<lparr>bus_log := bus_log ?s3 @ ?ramwr, faults := fs3\<rparr>) \<or>
         wcd [0x2c] line ?s3 =
           Raised TransportError (?s3\<lparr>bus_log := bus_log ?s3 @ es3, faults := fs3\<rparr>) \<and>
         (\<exists>zs. ?ramwr = es3 @ zs)"
        by blast
      then show ?thesis
      proof (elim disjE conjE exE)
        fix zs
        assume "wcd [0x2c] line ?s3 =
           Raised TransportError (?s3\<lparr>bus_log := bus_log ?s3 @ es3, faults := fs3\<rparr>)"
          and "?ramwr = es3 @ zs"
        then have "show_line wd row start s =
            Raised TransportError
              (s\<lparr>linebuf := line, bus_log := bus_log s @ (?caset @ ?raset @ es3),
                  faults := fs3\<rparr>)"
          and "scanline_events row line = (?caset @ ?raset @ es3) @ zs"
          by (simp_all add: line3 scanline_events_def)
        then show ?thesis by blast
      next
        assume "wcd [0x2c] line ?s3 =
           Returned (?s3\<lparr>bus_log := bus_log ?s3 @ ?ramwr, faults := fs3\<rparr>)"
        then have "show_line wd row start s =
            Returned (s\<lparr>linebuf := line, bus_log := bus_log s @ scanline_events row line,
                        faults := fs3\<rparr>)"
          by (simp add: line3 scanline_events_def)
        then show ?thesis by blast
      qed
    qed
  qed
qed

lemma frame_events_first:
  "j < n \<Longrightarrow> frame_events s j n = frame_line s j @ frame_events s (Suc j) n"
  by (simp add: frame_events_def upt_conv_Cons)

lemma show_line_outcome_at:
  assumes H: "height s = int H" and W: "width s = int W"
    and buf: "length (buffer s) = H * W"
    and addr: "height s \<le> 65533" and j: "j < H"
    and lb: "length lb = 2 * W"
  shows "\<exists>es fs'.
     show_line (width s) (height s - 1 - int j) (int j * width s)
         (s\<lparr>linebuf := lb, bus_log := log, faults := fs\<rparr>) =
       Returned (s\<lparr>linebuf := encode_line (memory_row W j (buffer s)),
                   bus_log := log @ frame_line s j, faults := fs'\<rparr>) \<or>
     show_line (width s) (height s - 1 - int j) (int j * width s)
         (s\<lparr>linebuf := lb, bus_log := log, faults := fs\<rparr>) =
       Raised TransportError (s\<lparr>linebuf := encode_line (memory_row W j (buffer s)),
                   bus_log := log @ es, faults := fs'\<rparr>) \<and>
     (\<exists>zs. frame_line s j = es @ zs)"
proof -
  let ?s = "s\<lparr>linebuf := lb, bus_log := log, faults := fs\<rparr>"
  have "Suc j * W \<le> H * W"
    using j by (intro mult_le_mono1) simp
  then have fit: "nat (int j * int W) + nat (int W) \<le> length (buffer ?s)"
    by (simp add: buf nat_mult_distrib)
  have "0 \<le> int H - 1 - int j" "int H - 1 - int j \<le> 65532" "0 \<le> int W" "0 \<le> int j * int W"
    "length (linebuf ?s) = 2 * nat (int W)"
    using j addr H lb by simp_all
  from show_line_outcome [OF this(1-4) fit this(5)]
  show ?thesis
    by (simp add: H W frame_line_def memory_row_def nat_mult_distrib)
qed

lemma show_loop_outcome:
  assumes H: "height s = int H" and W: "width s = int W"
    and buf: "length (buffer s) = H * W" and addr: "height s \<le> 65533"
    and jk: "j + k = H" and lb: "length lb = 2 * W"
  shows "\<exists>lb' es fs'. length lb' = 2 * W \<and>
     (show_loop (width s) (height s - 1 - int j) (int j * width s)
         (s\<lparr>linebuf := lb, bus_log := log, faults := fs\<rparr>) =
       Returned (s\<lparr>linebuf := lb', bus_log := log @ frame_events s j H, faults := fs'\<rparr>) \<or>
      show_loop (width s) (height s - 1 - int j) (int j * width s)
         (s\<lparr>linebuf := lb, bus_log := log, faults := fs\<rparr>) =
       Raised TransportError (s\<lparr>linebuf := lb', bus_log := log @ es, faults := fs'\<rparr>) \<and>
      (\<exists>zs. frame_events s j H = es @ zs))"
  using jk lb
proof (induction k arbitrary: j lb log fs)
  case 0
  then have "height s - 1 - int j < 0"
    using H by simp
  then have "show_loop (width s) (height s - 1 - int j) (int j * width s)
         (s\<lparr>linebuf := lb, bus_log := log, faults := fs\<rparr>) =
       Returned (s\<lparr>linebuf := lb, bus_log := log @ frame_events s j H, faults := fs\<rparr>)"
    using 0 by (simp add: show_loop_done)
  with "0.prems"(2) show ?case by blast
next
  case (Suc k)
  then have j: "j < H" by simp
  let ?line = "encode_line (memory_row W j (buffer s))"
  let ?sj = "s\<lparr>linebuf := lb, bus_log := log, faults := fs\<rparr>"
  have row: "0 \<le> height s - 1 - int j"
    using j H by simp
  have "Suc j * W \<le> H * W"
    using j by (intro mult_le_mono1) simp
  then have "W \<le> H * W - j * W"
    by simp
  then have len: "length ?line = 2 * W"
    using buf by (simp add: length_encode_line memory_row_def)
  from show_line_outcome_at [OF H W buf addr j Suc.prems(2), where log = log and fs = fs]
  obtain es fs1 where
    "show_line (width s) (height s - 1 - int j) (int j * width s) ?sj =
       Returned (s\<lparr>linebuf := ?line, bus_log := log @ frame_line s j, faults := fs1\<rparr>) \<or>
     show_line (width s) (height s - 1 - int j) (int j * width s) ?sj =
       Raised TransportError (s\<lparr>linebuf := ?line, bus_log := log @ es, faults := fs1\<rparr>) \<and>
     (\<exists>zs. frame_line s j = es @ zs)"
    by blast
  then show ?case
  proof (elim disjE conjE exE)
    fix zs
    assume line: "show_line (width s) (height s - 1 - int j) (int j * width s) ?sj =
       Raised TransportError (s\<lparr>linebuf := ?line, bus_log := log @ es, faults := fs1\<rparr>)"
      and cut: "frame_line s j = es @ zs"
    have "frame_events s j H = es @ (zs @ frame_events s (Suc j) H)"
      using j cut by (simp add: frame_events_first)
    with show_loop_raise [OF row line] len show ?thesis
      by blast
  next
    assume line: "show_line (width s) (height s - 1 - int j) (int j * width s) ?sj =
       Returned (s\<lparr>linebuf := ?line, bus_log := log @ frame_line s j, faults := fs1\<rparr>)"
    have next_row: "height s - 1 - int j - 1 = height s - 1 - int (Suc j)"
      "int j * width s + width s = int (Suc j) * width s"
      by (simp_all add: algebra_simps)
    have "Suc j + k = H"
      using Suc.prems(1) by simp
    from Suc.IH [OF this len, where log = "log @ frame_line s j" and fs = fs1]
    obtain lb' es' fs' where lb': "length lb' = 2 * W"
      and rest: "show_loop (width s) (height s - 1 - int (Suc j)) (int (Suc j) * width s)
         (s\<lparr>linebuf := ?line, bus_log := log @ frame_line s j, faults := fs1\<rparr>) =
        Returned (s\<lparr>linebuf := lb',
           bus_log := (log @ frame_line s j) @ frame_events s (Suc j) H, faults := fs'\<rparr>) \<or>
       show_loop (width s) (height s - 1 - int (Suc j)) (int (Suc j) * width s)
         (s\<lparr>linebuf := ?line, bus_log := log @ frame_line s j, faults := fs1\<rparr>) =
        Raised TransportError (s\<lparr>linebuf := lb',
           bus_log := (log @ frame_line s j) @ es', faults := fs'\<rparr>) \<and>
       (\<exists>zs. frame_events s (Suc j) H = es' @ zs)"
      by blast
    have step: "show_loop (width s) (height s - 1 - int j) (int j * width s) ?sj =
        show_loop (width s) (height s - 1 - int (Suc j)) (int (Suc j) * width s)
         (s\<lparr>linebuf := ?line, bus_log := log @ frame_line s j, faults := fs1\<rparr>)"
      using show_loop_step [OF row line] by (simp only: next_row)
    from rest show ?thesis
    proof (elim disjE conjE exE)
      assume "show_loop (width s) (height s - 1 - int (Suc j)) (int (Suc j) * width s)
         (s\<lparr>linebuf := ?line, bus_log := log @ frame_line s j, faults := fs1\<rparr>) =
        Returned (s\<lparr>linebuf := lb',
           bus_log := (log @ frame_line s j) @ frame_events s (Suc j) H, faults := fs'\<rparr>)"
      then have "show_loop (width s) (height s - 1 - int j) (int j * width s) ?sj =
          Returned (s\<lparr>linebuf := lb', bus_log := log @ frame_events s j H, faults := fs'\<rparr>)"
        using j by (simp add: step frame_events_first)
      with lb' show ?thesis by blast
    next
      fix zs
      assume "show_loop (width s) (height s - 1 - int (Suc j)) (int (Suc j) * width s)
         (s\<lparr>linebuf := ?line, bus_log := log @ frame_line s j, faults := fs1\<rparr>) =
        Raised TransportError (s\<lparr>linebuf := lb',
           bus_log := (log @ frame_line s j) @ es', faults := fs'\<rparr>)"
        and "frame_events s (Suc j) H = es' @ zs"
      then have "show_loop (width s) (height s - 1 - int j) (int j * width s) ?sj =
          Raised TransportError (s\<lparr>linebuf := lb', bus_log := log @ (frame_line s j @ es'),
            faults := fs'\<rparr>)"
        and "frame_events s j H = (frame_line s j @ es') @ zs"
        using j by (simp_all add: step frame_events_first)
      with lb' show ?thesis by blast
    qed
  qed
qed

lemma show_outcome:
  assumes "well_formed s" and "addressable s"
  shows "\<exists>zs. show s = Returned (state_of (show s)) \<and>
           emitted s (state_of (show s)) = frame_events s 0 (nat (height s)) \<or>
         show s = Raised TransportError (state_of (show s)) \<and>
           frame_events s 0 (nat (height s)) = emitted s (state_of (show s)) @ zs"
proof -
  from assms(1) obtain H W where H: "height s = int H" and W: "width s = int W"
    and buf: "length (buffer s) = H * W" and lbs: "length (linebuf s) = 2 * W"
    by (rule well_formed_dims)
  have addr: "height s \<le> 65533"
    using assms(2) by (simp add: addressable_def)
  have s: "s\<lparr>linebuf := linebuf s, bus_log := bus_log s, faults := faults s\<rparr> = s"
    by simp
  have "0 + H = H" by simp
  from show_loop_outcome [OF H W buf addr this lbs, where log = "bus_log s" and fs = "faults s"]
  show ?thesis
    unfolding s show_def by (auto simp add: H)
qed

lemma transfers_append:
  "\<exists>dc'. transfers dc (es @ zs) = transfers dc es @ transfers dc' zs"
proof (induction es arbitrary: dc)
  case Nil
  show ?case by auto
next
  case (Cons e es)
  show ?case
  proof (cases e)
    case (PinSet p v)
    with Cons [of v] Cons [of dc] show ?thesis
      by (cases p) auto
  next
    case (SpiWrite b)
    with Cons [of dc] show ?thesis by auto
  next
    case (SleepMs t)
    with Cons [of dc] show ?thesis by auto
  qed
qed

lemma payloads_append:
  "\<exists>ws. payloads c (ts @ us) = payloads c ts @ ws"
proof (induction c ts rule: payloads.induct)
  case (1 c t u ts)
  show ?case
  proof (cases "t = (False, [c]) \<and> fst u")
    case True
    with "1.IH"(1) show ?thesis by auto
  next
    case False
    with "1.IH"(2) show ?thesis by auto
  qed
qed simp_all

lemma payloads_cut:
  assumes "full = es @ zs"
  shows "\<exists>ws. payloads c (transfers dc full) = payloads c (transfers dc es) @ ws"
proof -
  from transfers_append [of dc es zs] obtain dc' where
    "transfers dc full = transfers dc es @ transfers dc' zs"
    unfolding assms by blast
  with payloads_append [of c "transfers dc es" "transfers dc' zs"] show ?thesis
    by simp
qed

lemma show_payloads_cut:
  assumes "well_formed s" and "addressable s"
  shows "\<exists>ws. payloads c (frame_transfers s (nat (height s))) =
     payloads c (transfers dc (emitted s (state_of (show s)))) @ ws"
proof -
  from show_outcome [OF assms] obtain zs where
    "frame_events s 0 (nat (height s)) = emitted s (state_of (show s)) @ zs"
    by auto
  from payloads_cut [OF this, of c dc] show ?thesis
    by (simp only: transfers_frame_events)
qed

lemma raset_distinct:
  assumes "addressable s"
  shows "distinct (payloads 0x2b (frame_transfers s (nat (height s))))"
proof -
  let ?f = "\<lambda>i. range_payload (height s - 1 - int i + 2) (height s - 1 - int i + 3)"
  have "inj_on ?f {0 ..< nat (height s)}"
  proof (rule inj_onI)
    fix i j assume i: "i \<in> {0 ..< nat (height s)}" and j: "j \<in> {0 ..< nat (height s)}"
      and eq: "?f i = ?f j"
    have "height s - 1 - int i + 2 = height s - 1 - int j + 2"
      using i j assms by (intro range_payload_inj [OF eq]) (simp_all add: addressable_def)
    then show "i = j" by simp
  qed
  then show ?thesis
    unfolding payloads_raset by (simp add: distinct_map)
qed

text \<open>
  C8. Within one \<open>show\<close>, whether it returns or a write fails, every column-address-set
  command (0x2A) that was issued carries the same four bytes, the big-endian encoding of
  \<open>(3 << 16) + 160\<close>, whatever the scanline and whatever the pixel buffer holds; the
  row-address-set payloads differ from scanline to scanline. On a transport that does
  not fail there is one such column-address-set payload per row.
\<close>

theorem caset_fixed:
  assumes "well_formed s" and "addressable s"
  shows "to_bytes (push_bit 16 3 + 160) 4 = Inr [0x00, 0x03, 0x00, 0xA0] \<and>
     (\<forall>p \<in> set (payloads 0x2a (transfers dc (emitted s (state_of (show s))))).
        p = [0x00, 0x03, 0x00, 0xA0]) \<and>
     distinct (payloads 0x2b (transfers dc (emitted s (state_of (show s))))) \<and>
     (reliable s \<longrightarrow>
        payloads 0x2a (transfers dc (emitted s (state_of (show s)))) =
          replicate (nat (height s)) [0x00, 0x03, 0x00, 0xA0])"
proof -
  have a: "to_bytes (push_bit 16 3 + 160) 4 = Inr [0x00, 0x03, 0x00, 0xA0]"
    using to_bytes_caset by (simp only: caset_bytes)
  from show_payloads_cut [OF assms, of "0x2a" dc] obtain ws where
    "replicate (nat (height s)) [0x00, 0x03, 0x00, 0xA0] =
       payloads 0x2a (transfers dc (emitted s (state_of (show s)))) @ ws"
    by (auto simp only: payloads_caset caset_bytes)
  then have "set (payloads 0x2a (transfers dc (emitted s (state_of (show s))))) \<subseteq>
      set (replicate (nat (height s)) [0x00, 0x03, 0x00, 0xA0])"
    by (metis set_append sup_ge1)
  then have b: "\<forall>p \<in> set (payloads 0x2a (transfers dc (emitted s (state_of (show s))))).
        p = [0x00, 0x03, 0x00, 0xA0]"
    by auto
  from show_payloads_cut [OF assms, of "0x2b" dc] obtain ws where
    "payloads 0x2b (frame_transfers s (nat (height s))) =
       payloads 0x2b (transfers dc (emitted s (state_of (show s)))) @ ws"
    by blast
  with raset_distinct [OF assms(2)]
  have c: "distinct (payloads 0x2b (transfers dc (emitted s (state_of (show s)))))"
    by simp
  have d: "payloads 0x2a (transfers dc (emitted s (state_of (show s)))) =
          replicate (nat (height s)) [0x00, 0x03, 0x00, 0xA0]" if "reliable s"
    using show_state(2) [OF assms that, of dc] by (simp only: payloads_caset caset_bytes)
  from a b c d show ?thesis by blast
qed

theorem caset_fixed_witness:
  "well_formed panel_2x2 \<and> addressable panel_2x2 \<and> reliable panel_2x2 \<and>
   to_bytes (push_bit 16 3 + 160) 4 = Inr [0x00, 0x03, 0x00, 0xA0] \<and>
   [0x00, 0x03, 0x00, 0xA0] \<in>
     set (payloads 0x2a (transfers True (emitted panel_2x2 (state_of (show panel_2x2))))) \<and>
   distinct (payloads 0x2b (transfers True (emitted panel_2x2 (state_of (show panel_2x2))))) \<and>
   payloads 0x2a (transfers True (emitted panel_2x2 (state_of (show panel_2x2)))) =
     replicate (nat (height panel_2x2)) [0x00, 0x03, 0x00, 0xA0]"
proof -
  from caset_fixed [OF panel_2x2_ok(1,2), of True] panel_2x2_ok(3)
  have a: "to_bytes (push_bit 16 3 + 160) 4 = Inr [0x00, 0x03, 0x00, 0xA0]"
    and c: "distinct (payloads 0x2b (transfers True (emitted panel_2x2 (state_of (show panel_2x2)))))"
    and d: "payloads 0x2a (transfers True (emitted panel_2x2 (state_of (show panel_2x2)))) =
          replicate (nat (height panel_2x2)) [0x00, 0x03, 0x00, 0xA0]"
    by blast+
  have "[0x00, 0x03, 0x00, 0xA0] \<in>
     set (payloads 0x2a (transfers True (emitted panel_2x2 (state_of (show panel_2x2)))))"
    unfolding d by (simp add: panel_2x2_def)
  with a c d panel_2x2_ok show ?thesis by blast
qed

end
